theory Spec2Isabelle
  imports Main "HOL-Library.Multiset"
begin

text \<open>
  A shallow embedding of the breadth-first value search of the repository: the graph of
  \<^verbatim>\<open>graph.cpp\<close>, the sequential search of \<^verbatim>\<open>bfs_seq.cpp\<close> and the two
  level-synchronous parallel searches of \<^verbatim>\<open>bfs_thread.cpp\<close> with their threads and the
  barrier between their rounds.

  Node ids, indices and lengths are natural numbers and counters are unbounded integers.
  The C++ code keeps them in \<^verbatim>\<open>int\<close>, \<^verbatim>\<open>uint\<close> and \<^verbatim>\<open>size_t\<close>; on a well-formed graph
  (\<open>wf_graph\<close> below: fewer than \<open>2^31\<close> nodes) every id, index and count fits them and
  no arithmetic wraps. An access outside a vector is undefined behaviour in C++; the model
  makes it the error value \<open>OutOfRange\<close>. A call that never returns is the value \<open>None\<close>.
\<close>

section \<open>Graph view (graph.cpp)\<close>

text \<open>
  \<^verbatim>\<open>class node { short value; vector<uint> adj; }\<close> and
  \<^verbatim>\<open>class Graph { uint n_nodes; vector<node *> nodes; }\<close>. The field \<^verbatim>\<open>value\<close> is
  \<open>node_value\<close> here; it is compared with the \<^verbatim>\<open>int\<close> search value after promotion, so
  it is an integer in the model.
\<close>

record node =
  node_value :: int
  adj :: "nat list"

record Graph =
  n_nodes :: nat
  nodes :: "node list"

datatype error = OutOfRange

text \<open>
  The graphs the searches are defined on: the constructor allocates \<open>n_nodes\<close> nodes, and
  every adjacency entry is a node id (the generator only adds edges between ids below
  \<open>n_nodes\<close>; \<^verbatim>\<open>add_edge\<close> itself checks nothing).
\<close>

definition wf_graph :: "Graph \<Rightarrow> bool" where
  "wf_graph g \<longleftrightarrow>
     length (nodes g) = n_nodes g \<and> n_nodes g < 2 ^ 31 \<and>
     (\<forall>nd \<in> set (nodes g). \<forall>v \<in> set (adj nd). v < n_nodes g)"

text \<open>
  Reachability along adjacency-list edges, and the number the searches are to return:
  how many reachable nodes carry the search value.
\<close>

definition edges :: "Graph \<Rightarrow> (nat \<times> nat) set" where
  "edges g = {(u, v). u < length (nodes g) \<and> v \<in> set (adj (nodes g ! u))}"

definition reachable :: "Graph \<Rightarrow> nat \<Rightarrow> nat set" where
  "reachable g s = (edges g)\<^sup>* `` {s}"

definition reachable_matches :: "Graph \<Rightarrow> nat \<Rightarrow> int \<Rightarrow> int" where
  "reachable_matches g s sv = int (card {u \<in> reachable g s. node_value (nodes g ! u) = sv})"

section \<open>Sequential BFS (bfs_seq.cpp)\<close>

text \<open>
  \<open>seq_expand\<close> is the inner loop over \<^verbatim>\<open>g->nodes[curr]->adj\<close>: an unvisited neighbour is
  pushed on the queue and marked. \<open>seq_loop\<close> is the \<^verbatim>\<open>while (!q.empty())\<close> loop; the queue
  is a list with its front first and \<^verbatim>\<open>vector<bool> visited\<close> is a list of booleans. The
  last argument, \<open>dequeued\<close>, is a ghost variable: it records the nodes in the order the
  loop takes them from the queue and influences nothing. \<open>sequential_bfs\<close> returns the
  counter alone, as the C++ function does.
\<close>

fun seq_expand :: "nat list \<Rightarrow> nat list \<Rightarrow> bool list \<Rightarrow> error + (nat list \<times> bool list)" where
  "seq_expand [] q vis = Inr (q, vis)"
| "seq_expand (v # vs) q vis =
     (if length vis \<le> v then Inl OutOfRange
      else if \<not> vis ! v then seq_expand vs (q @ [v]) (vis[v := True])
      else seq_expand vs q vis)"

partial_function (option) seq_loop ::
  "Graph \<Rightarrow> int \<Rightarrow> nat list \<Rightarrow> bool list \<Rightarrow> int \<Rightarrow> nat list \<Rightarrow>
   (error + int \<times> nat list) option" where
  "seq_loop g search_value q vis occ dequeued =
     (case q of
        [] \<Rightarrow> Some (Inr (occ, dequeued))
      | cur # q' \<Rightarrow>
          if length (nodes g) \<le> cur then Some (Inl OutOfRange)
          else
            (case seq_expand (adj (nodes g ! cur)) q' vis of
               Inl e \<Rightarrow> Some (Inl e)
             | Inr (q'', vis') \<Rightarrow>
                 seq_loop g search_value q'' vis'
                   (if node_value (nodes g ! cur) = search_value then occ + 1 else occ)
                   (dequeued @ [cur])))"

declare seq_loop.simps [code]

definition sequential_bfs_run :: "Graph \<Rightarrow> nat \<Rightarrow> int \<Rightarrow> (error + int \<times> nat list) option" where
  "sequential_bfs_run g start_node search_value =
     (if n_nodes g \<le> start_node then Some (Inl OutOfRange)
      else seq_loop g search_value [start_node]
             ((replicate (n_nodes g) False)[start_node := True]) 0 [])"

definition sequential_bfs :: "Graph \<Rightarrow> nat \<Rightarrow> int \<Rightarrow> (error + int) option" where
  "sequential_bfs g start_node search_value =
     (case sequential_bfs_run g start_node search_value of
        None \<Rightarrow> None
      | Some (Inl e) \<Rightarrow> Some (Inl e)
      | Some (Inr (occ, dequeued)) \<Rightarrow> Some (Inr occ))"

section \<open>Parallel BFS (bfs_thread.cpp)\<close>

subsection \<open>The index ranges a worker computes\<close>

text \<open>
  \<open>worker_indices chunk_size thread_no n_workers curr_size\<close> lists, in the order the worker
  of \<open>parallel_bfs\<close> visits them, the indices of the frontier it processes in one round:
  \<open>chunk_loop\<close> is the loop
  \<^verbatim>\<open>for (auto i = thread_no; i < number_of_chunks; i += n_workers)\<close> with its inner loop
  over \<^verbatim>\<open>[i * chunk_size, i * chunk_size + chunk_size)\<close>, followed by the extra chunk of
  worker 0. The guard \<open>0 < n_workers\<close> only makes the function total: with no worker the
  loop is never run. \<open>static_indices\<close> is the range computation of
  \<^verbatim>\<open>__parallel_bfs_static\<close>. \<open>CHUNK_SIZE\<close> is the constant of \<^verbatim>\<open>config.hpp\<close>.
\<close>

definition CHUNK_SIZE :: nat where
  "CHUNK_SIZE = 2"

function chunk_loop :: "nat \<Rightarrow> nat \<Rightarrow> nat \<Rightarrow> nat \<Rightarrow> nat list" where
  "chunk_loop n_workers chunk_size number_of_chunks i =
     (if i < number_of_chunks \<and> 0 < n_workers
      then [i * chunk_size ..< i * chunk_size + chunk_size]
           @ chunk_loop n_workers chunk_size number_of_chunks (i + n_workers)
      else [])"
  by pat_completeness auto
termination
  by (relation "measure (\<lambda>(w, c, n, i). n - i)") auto

declare chunk_loop.simps [simp del]

definition worker_indices :: "nat \<Rightarrow> nat \<Rightarrow> nat \<Rightarrow> nat \<Rightarrow> nat list" where
  "worker_indices chunk_size thread_no n_workers curr_size =
     (let number_of_chunks = curr_size div chunk_size;
          extra_chunk = (thread_no = 0 \<and> curr_size mod chunk_size > 0)
      in chunk_loop n_workers chunk_size number_of_chunks thread_no
         @ (if extra_chunk then [number_of_chunks * chunk_size ..< curr_size] else []))"

definition static_indices :: "nat \<Rightarrow> nat \<Rightarrow> nat \<Rightarrow> nat list" where
  "static_indices thread_no n_workers curr_size =
     (if thread_no < curr_size then
        (let delta = (if n_workers < curr_size then curr_size div n_workers else 1);
             start = thread_no * delta;
             stop = (if thread_no = n_workers - 1 then curr_size else (thread_no + 1) * delta);
             stop' = (if start = stop then stop + 1 else stop)
         in [start ..< stop'])
      else [])"

subsection \<open>Workers as interleaved atomic steps\<close>

text \<open>
  The workers of a round run concurrently and share the \<^verbatim>\<open>visited\<close> array without a lock.
  The model is an interleaving of atomic steps, one per access to shared memory, under
  sequential consistency. What a worker still has to do in the current round is its list
  of \<open>pending\<close> actions:
  \<^item> \<open>Examine u\<close>: the body of \<^verbatim>\<open>f_node\<close> up to its loop: compare the value of frontier
    node \<open>u\<close> with the search value, count a match in the private counter, and schedule a
    \<open>Check\<close> for each entry of the adjacency list (graph and frontier are read-only
    during a round);
  \<^item> \<open>Check v\<close>: the test \<^verbatim>\<open>visited[val] == 0\<close>, a read of the shared array; when it
    succeeds the worker is committed to \<open>Mark v\<close>;
  \<^item> \<open>Mark v\<close>: \<^verbatim>\<open>partial_new_frontier[thread_no].push_back(val); visited[val] = 1\<close>, the
    write of the shared array together with the push on the worker's own buffer.

  Between a worker's \<open>Check v\<close> and its \<open>Mark v\<close> other workers may take steps, so two
  workers can both find \<open>v\<close> unvisited and both push it. \<open>worker_step\<close> lets one worker
  take its next step; a worker with nothing pending is waiting at the barrier and its
  step changes nothing. The fields \<open>fault\<close> (an access out of range has happened) and
  \<open>rounds\<close> (how many rounds the orchestrator has completed) are bookkeeping of the model,
  and so is the worker's field \<open>examined\<close>: the log of the nodes on which the worker has
  run \<^verbatim>\<open>f_node\<close>, in the order of the calls. No step reads the log.
\<close>

datatype action = Examine nat | Check nat | Mark nat

record worker =
  pending :: "action list"
  partial_new_frontier :: "nat list"
  partial_occurrences :: int
  examined :: "nat list"

record bfs_state =
  curr_frontier :: "nat list"
  visited :: "int list"
  workers :: "worker list"
  fault :: bool
  rounds :: nat

definition put_worker :: "nat \<Rightarrow> worker \<Rightarrow> bfs_state \<Rightarrow> bfs_state" where
  "put_worker thread_no w st = st\<lparr>workers := (workers st)[thread_no := w]\<rparr>"

definition worker_step :: "Graph \<Rightarrow> int \<Rightarrow> nat \<Rightarrow> bfs_state \<Rightarrow> bfs_state" where
  "worker_step g search_value thread_no st =
     (if length (workers st) \<le> thread_no then st
      else
        (let w = workers st ! thread_no in
         case pending w of
           [] \<Rightarrow> st
         | Examine curr_node # rest \<Rightarrow>
             if length (nodes g) \<le> curr_node
             then (put_worker thread_no (w\<lparr>pending := []\<rparr>) st)\<lparr>fault := True\<rparr>
             else put_worker thread_no
                    (w\<lparr>pending := map Check (adj (nodes g ! curr_node)) @ rest,
                       partial_occurrences :=
                         (if node_value (nodes g ! curr_node) = search_value
                          then partial_occurrences w + 1 else partial_occurrences w),
                       examined := examined w @ [curr_node]\<rparr>) st
         | Check v # rest \<Rightarrow>
             if length (visited st) \<le> v
             then (put_worker thread_no (w\<lparr>pending := []\<rparr>) st)\<lparr>fault := True\<rparr>
             else if visited st ! v = 0
             then put_worker thread_no (w\<lparr>pending := Mark v # rest\<rparr>) st
             else put_worker thread_no (w\<lparr>pending := rest\<rparr>) st
         | Mark v # rest \<Rightarrow>
             (put_worker thread_no
                (w\<lparr>pending := rest,
                   partial_new_frontier := partial_new_frontier w @ [v]\<rparr>) st)
             \<lparr>visited := (visited st)[v := 1]\<rparr>))"

text \<open>
  \<open>run_worker\<close> lets one worker run until it has nothing pending; \<open>cost\<close> bounds the
  number of steps that takes.
\<close>

fun cost :: "Graph \<Rightarrow> action \<Rightarrow> nat" where
  "cost g (Examine u) = 1 + 2 * length (adj (nodes g ! u))"
| "cost g (Check v) = 2"
| "cost g (Mark v) = 1"

definition work_left :: "Graph \<Rightarrow> nat \<Rightarrow> bfs_state \<Rightarrow> nat" where
  "work_left g thread_no st = sum_list (map (cost g) (pending (workers st ! thread_no)))"

function run_worker :: "Graph \<Rightarrow> int \<Rightarrow> nat \<Rightarrow> bfs_state \<Rightarrow> bfs_state" where
  "run_worker g search_value thread_no st =
     (if thread_no < length (workers st) \<and> pending (workers st ! thread_no) \<noteq> []
      then run_worker g search_value thread_no (worker_step g search_value thread_no st)
      else st)"
  by pat_completeness auto
termination
  by (relation "measure (\<lambda>(g, sv, t, st). work_left g t st)")
     (auto simp: work_left_def worker_step_def put_worker_def Let_def comp_def sum_list_triv
           split: list.splits action.splits)

declare run_worker.simps [simp del]

subsection \<open>A round\<close>

text \<open>
  A round as the barrier is meant to delimit it: every worker reads the frontier and
  computes its indices (\<open>assign_work\<close>), the workers run (\<open>run_round\<close>), the orchestrator
  merges the buffers (\<open>merge\<close>). \<open>bfs_round\<close> is such a round on its own; the threads
  and the barrier that are to produce the rounds follow in the next two subsections.

  The \<open>schedule\<close> of a round is a list of thread numbers: the workers take one step each
  in that order, and when the list is used up the workers that still have work run to
  completion in thread order. Every interleaving of the workers' steps is the schedule
  that lists it, so a statement for all schedules is a statement for all interleavings.

  In \<open>merge\<close> the \<^verbatim>\<open>unordered_set\<close> is the duplicate-free list of the buffers' elements,
  and \<open>arrange\<close> is what happens between the set and the new frontier: for
  \<open>parallel_bfs\<close> the \<^verbatim>\<open>assign\<close> followed by \<^verbatim>\<open>sort\<close>, whose result does not depend on
  the order the set is iterated in; for the static variant the \<^verbatim>\<open>assign\<close> alone, in an
  iteration order that may be any rearrangement and may differ from round to round.
\<close>

definition assign_work :: "(nat \<Rightarrow> nat \<Rightarrow> nat \<Rightarrow> nat list) \<Rightarrow> bfs_state \<Rightarrow> bfs_state" where
  "assign_work indices st =
     st\<lparr>workers :=
          map (\<lambda>(thread_no, w).
                 w\<lparr>pending :=
                     map (\<lambda>j. Examine (curr_frontier st ! j))
                       (indices thread_no (length (workers st)) (length (curr_frontier st)))\<rparr>)
            (enumerate 0 (workers st))\<rparr>"

definition run_round :: "Graph \<Rightarrow> int \<Rightarrow> nat list \<Rightarrow> bfs_state \<Rightarrow> bfs_state" where
  "run_round g search_value schedule st =
     (let st' = fold (worker_step g search_value) schedule st
      in fold (run_worker g search_value) [0 ..< length (workers st')] st')"

definition merge :: "(nat list \<Rightarrow> nat list) \<Rightarrow> bfs_state \<Rightarrow> bfs_state" where
  "merge arrange st =
     st\<lparr>curr_frontier := arrange (remdups (concat (map partial_new_frontier (workers st)))),
        workers := map (\<lambda>w. w\<lparr>partial_new_frontier := []\<rparr>) (workers st)\<rparr>"

definition bfs_round ::
  "(nat \<Rightarrow> nat \<Rightarrow> nat \<Rightarrow> nat list) \<Rightarrow> (nat \<Rightarrow> nat list \<Rightarrow> nat list) \<Rightarrow> Graph \<Rightarrow> int \<Rightarrow>
   (nat \<Rightarrow> nat list) \<Rightarrow> bfs_state \<Rightarrow> bfs_state" where
  "bfs_round indices arrange g search_value schedule st =
     (merge (arrange (rounds st))
        (run_round g search_value (schedule (rounds st)) (assign_work indices st)))
     \<lparr>rounds := Suc (rounds st)\<rparr>"

definition init_state :: "Graph \<Rightarrow> nat \<Rightarrow> nat \<Rightarrow> bfs_state" where
  "init_state g start_node n_workers =
     \<lparr>curr_frontier = [start_node],
      visited = (replicate (n_nodes g) 0)[start_node := 1],
      workers = replicate n_workers
                  \<lparr>pending = [], partial_new_frontier = [], partial_occurrences = 0,
                   examined = []\<rparr>,
      fault = False,
      rounds = 0\<rparr>"

definition total_occurrences :: "bfs_state \<Rightarrow> int" where
  "total_occurrences st = sum_list (map partial_occurrences (workers st))"



subsection \<open>The barrier (class Barrier)\<close>

text \<open>
  The threads of a call are the orchestrator (\<open>Master\<close>) and the workers. They take their
  steps one at a time, in some order, and every step sees the memory the steps before it
  left: the model is an interleaving of atomic steps under sequential consistency, one
  step per statement of the barrier's methods.

  A mutex is free (\<open>None\<close>) or owned by one thread; taking it is a step that can only be
  taken while it is free. A condition variable is the list of the threads blocked on it.
  \<^verbatim>\<open>wait(lock)\<close> releases the mutex and puts the caller on the list in one step, as the
  C++ call does; \<^verbatim>\<open>notify_one\<close> takes the first thread off the list if there is one,
  \<^verbatim>\<open>notify_all\<close> all of them; a thread that is off the list goes on as soon as it can
  take the mutex back. A notification that finds nobody waiting changes nothing: a
  condition variable keeps no memory of it. A waiting thread is woken by a notification
  only: C++ permits spurious wake-ups and promises none, so a program cannot count on
  one. \<^verbatim>\<open>wait(lock, pred)\<close> is \<^verbatim>\<open>while (!pred()) wait(lock)\<close>: the test of the predicate
  (the program points \<open>MW_test\<close>, \<open>WW_test\<close>) and the blocking (\<open>MW_wait\<close>, \<open>WW_wait\<close>)
  are two steps.

  Each method is a function from a program point and the barrier to the next program
  point (\<open>None\<close> when the method returns, its \<^verbatim>\<open>unique_lock\<close> released) and the new
  barrier; the function with the suffix \<open>_enabled\<close> says whether the step at a program
  point can be taken. \<^verbatim>\<open>MasterWait\<close> uses \<^verbatim>\<open>m_mutex\<close> and \<^verbatim>\<open>WorkerWait\<close> and
  \<^verbatim>\<open>StartWorkers\<close> use \<^verbatim>\<open>w_mutex\<close>, as in the source, so a worker can write
  \<^verbatim>\<open>stop_master\<close> and notify \<^verbatim>\<open>m_cond\<close> between two steps of \<^verbatim>\<open>MasterWait\<close>.
  The flag \<^verbatim>\<open>stop_master\<close> is a plain \<^verbatim>\<open>bool\<close> that the two sides access under different
  mutexes; the model reads and writes it like any other variable.
  \<^verbatim>\<open>m_count\<close> and \<^verbatim>\<open>m_generation\<close> are of type \<^verbatim>\<open>size_t\<close> and wrap modulo
  \<open>SIZE_MAX + 1\<close>; the number of workers is an \<^verbatim>\<open>int\<close> of the caller and fits.
\<close>

datatype thread = Master | Worker nat

record Barrier =
  m_threshold :: int
  m_count :: int
  m_generation :: int
  stop_master :: bool
  w_mutex :: "thread option"
  m_mutex :: "thread option"
  w_cond :: "thread list"
  m_cond :: "thread list"

definition SIZE_MAX :: int where
  "SIZE_MAX = 18446744073709551615"

definition new_Barrier :: "nat \<Rightarrow> Barrier" where
  "new_Barrier i_count =
     \<lparr>m_threshold = int i_count, m_count = int i_count, m_generation = 0, stop_master = False,
      w_mutex = None, m_mutex = None, w_cond = [], m_cond = []\<rparr>"

datatype MasterWait_pc = MW_lock | MW_test | MW_wait | MW_blocked | MW_clear | MW_unlock

datatype StartWorkers_pc = SW_lock | SW_generation | SW_notify_all | SW_unlock

datatype WorkerWait_pc =
  WW_lock | WW_l_gen | WW_count | WW_reset | WW_stop_master | WW_notify_one
  | WW_test | WW_wait | WW_blocked | WW_unlock

fun MasterWait_enabled :: "MasterWait_pc \<Rightarrow> Barrier \<Rightarrow> bool" where
  "MasterWait_enabled MW_lock b = (m_mutex b = None)"
| "MasterWait_enabled MW_blocked b = (Master \<notin> set (m_cond b) \<and> m_mutex b = None)"
| "MasterWait_enabled pc b = True"

fun MasterWait :: "MasterWait_pc \<Rightarrow> Barrier \<Rightarrow> MasterWait_pc option \<times> Barrier" where
  "MasterWait MW_lock b = (Some MW_test, b\<lparr>m_mutex := Some Master\<rparr>)"
| "MasterWait MW_test b = (Some (if stop_master b then MW_clear else MW_wait), b)"
| "MasterWait MW_wait b = (Some MW_blocked, b\<lparr>m_mutex := None, m_cond := m_cond b @ [Master]\<rparr>)"
| "MasterWait MW_blocked b = (Some MW_test, b\<lparr>m_mutex := Some Master\<rparr>)"
| "MasterWait MW_clear b = (Some MW_unlock, b\<lparr>stop_master := False\<rparr>)"
| "MasterWait MW_unlock b = (None, b\<lparr>m_mutex := None\<rparr>)"

fun StartWorkers_enabled :: "StartWorkers_pc \<Rightarrow> Barrier \<Rightarrow> bool" where
  "StartWorkers_enabled SW_lock b = (w_mutex b = None)"
| "StartWorkers_enabled pc b = True"

fun StartWorkers :: "StartWorkers_pc \<Rightarrow> Barrier \<Rightarrow> StartWorkers_pc option \<times> Barrier" where
  "StartWorkers SW_lock b = (Some SW_generation, b\<lparr>w_mutex := Some Master\<rparr>)"
| "StartWorkers SW_generation b =
     (Some SW_notify_all, b\<lparr>m_generation := (m_generation b + 1) mod (SIZE_MAX + 1)\<rparr>)"
| "StartWorkers SW_notify_all b = (Some SW_unlock, b\<lparr>w_cond := []\<rparr>)"
| "StartWorkers SW_unlock b = (None, b\<lparr>w_mutex := None\<rparr>)"

fun WorkerWait_enabled :: "nat \<Rightarrow> WorkerWait_pc \<Rightarrow> Barrier \<Rightarrow> bool" where
  "WorkerWait_enabled thread_no WW_lock b = (w_mutex b = None)"
| "WorkerWait_enabled thread_no WW_blocked b =
     (Worker thread_no \<notin> set (w_cond b) \<and> w_mutex b = None)"
| "WorkerWait_enabled thread_no pc b = True"

fun WorkerWait ::
  "nat \<Rightarrow> WorkerWait_pc \<Rightarrow> int \<Rightarrow> Barrier \<Rightarrow> WorkerWait_pc option \<times> int \<times> Barrier" where
  "WorkerWait thread_no WW_lock l_gen b =
     (Some WW_l_gen, l_gen, b\<lparr>w_mutex := Some (Worker thread_no)\<rparr>)"
| "WorkerWait thread_no WW_l_gen l_gen b = (Some WW_count, m_generation b, b)"
| "WorkerWait thread_no WW_count l_gen b =
     (let c = (m_count b + SIZE_MAX) mod (SIZE_MAX + 1)
      in (Some (if c = 0 then WW_reset else WW_test), l_gen, b\<lparr>m_count := c\<rparr>))"
| "WorkerWait thread_no WW_reset l_gen b =
     (Some WW_stop_master, l_gen, b\<lparr>m_count := m_threshold b\<rparr>)"
| "WorkerWait thread_no WW_stop_master l_gen b =
     (Some WW_notify_one, l_gen, b\<lparr>stop_master := True\<rparr>)"
| "WorkerWait thread_no WW_notify_one l_gen b = (Some WW_test, l_gen, b\<lparr>m_cond := tl (m_cond b)\<rparr>)"
| "WorkerWait thread_no WW_test l_gen b =
     (Some (if l_gen \<noteq> m_generation b then WW_unlock else WW_wait), l_gen, b)"
| "WorkerWait thread_no WW_wait l_gen b =
     (Some WW_blocked, l_gen, b\<lparr>w_mutex := None, w_cond := w_cond b @ [Worker thread_no]\<rparr>)"
| "WorkerWait thread_no WW_blocked l_gen b =
     (Some WW_test, l_gen, b\<lparr>w_mutex := Some (Worker thread_no)\<rparr>)"
| "WorkerWait thread_no WW_unlock l_gen b = (None, l_gen, b\<lparr>w_mutex := None\<rparr>)"

subsection \<open>The threads of a call\<close>

text \<open>
  \<open>init_system\<close> is the state of a call once the threads are created (l.94-170 of
  \<^verbatim>\<open>bfs_thread.cpp\<close>): the start node is in the frontier and marked, no thread has
  taken a step. A thread that is not created yet is a thread that has not been scheduled
  yet, so nothing is lost by starting there.

  \<open>master_step\<close> is the orchestrator from its loop on: the test of the loop, which calls
  \<^verbatim>\<open>StartWorkers\<close> from the second iteration on (\<open>first_iteration\<close>; the static variant
  counts the iterations in \<^verbatim>\<open>it\<close> to the same effect), \<^verbatim>\<open>MasterWait\<close>, the merge; after
  the loop \<^verbatim>\<open>game_over = 1\<close>, \<^verbatim>\<open>StartWorkers\<close>, and the loop that joins worker \<open>i\<close> (a
  step that can be taken once worker \<open>i\<close> has left its routine) and adds its entry of
  \<^verbatim>\<open>partial_results\<close>. The merge is one step of the orchestrator.

  \<open>f_step\<close> is the worker routine \<^verbatim>\<open>f\<close>: the test of \<^verbatim>\<open>game_over\<close>, the computation of its
  index ranges from the frontier (\<open>take_chunks\<close>, what \<open>assign_work\<close> does for all
  workers at once), the steps of \<open>worker_step\<close> until nothing is pending,
  \<^verbatim>\<open>WorkerWait\<close>, and after the loop the write of its counter to \<^verbatim>\<open>partial_results\<close>.

  \<open>thread_step\<close> lets one thread take its next step and changes nothing when that thread
  cannot take a step (it is blocked, has finished or does not exist). A \<open>schedule\<close> lists
  the threads in the order in which they take their steps; when the list is used up the
  run goes on with the first thread that can take a step, the orchestrator before the
  workers in thread order. \<open>run_threads\<close> returns the state in which the orchestrator has
  returned; a run in which it never does is \<open>None\<close>. \<open>parallel_bfs\<close> and
  \<open>parallel_bfs_static\<close> differ in their index ranges and in the sort only, and are the
  two instances of \<open>level_sync_bfs\<close>.
\<close>

datatype master_pc =
  M_while | M_StartWorkers StartWorkers_pc | M_MasterWait MasterWait_pc | M_merge
  | M_game_over | M_join nat | M_return

datatype worker_pc =
  W_while | W_chunks | W_f_node | W_WorkerWait WorkerWait_pc | W_partial_results | W_exit

record system =
  shared :: bfs_state
  barrier :: Barrier
  game_over :: bool
  first_iteration :: bool
  partial_results :: "int list"
  total :: int
  master_pc :: master_pc
  worker_pcs :: "worker_pc list"
  l_gens :: "int list"

definition take_chunks :: "(nat \<Rightarrow> nat \<Rightarrow> nat \<Rightarrow> nat list) \<Rightarrow> nat \<Rightarrow> bfs_state \<Rightarrow> bfs_state" where
  "take_chunks indices thread_no st =
     put_worker thread_no
       ((workers st ! thread_no)
          \<lparr>pending :=
             map (\<lambda>j. Examine (curr_frontier st ! j))
               (indices thread_no (length (workers st)) (length (curr_frontier st)))\<rparr>) st"

definition master_enabled :: "system \<Rightarrow> bool" where
  "master_enabled st =
     (case master_pc st of
        M_StartWorkers pc \<Rightarrow> StartWorkers_enabled pc (barrier st)
      | M_MasterWait pc \<Rightarrow> MasterWait_enabled pc (barrier st)
      | M_join i \<Rightarrow> length (worker_pcs st) \<le> i \<or> worker_pcs st ! i = W_exit
      | M_return \<Rightarrow> False
      | _ \<Rightarrow> True)"

definition master_step :: "(nat \<Rightarrow> nat list \<Rightarrow> nat list) \<Rightarrow> system \<Rightarrow> system" where
  "master_step arrange st =
     (case master_pc st of
        M_while \<Rightarrow>
          if curr_frontier (shared st) = [] then st\<lparr>master_pc := M_game_over\<rparr>
          else if first_iteration st
          then st\<lparr>first_iteration := False, master_pc := M_MasterWait MW_lock\<rparr>
          else st\<lparr>master_pc := M_StartWorkers SW_lock\<rparr>
      | M_StartWorkers pc \<Rightarrow>
          (case StartWorkers pc (barrier st) of
             (Some pc', b) \<Rightarrow> st\<lparr>barrier := b, master_pc := M_StartWorkers pc'\<rparr>
           | (None, b) \<Rightarrow>
               st\<lparr>barrier := b,
                  master_pc := (if game_over st then M_join 0 else M_MasterWait MW_lock)\<rparr>)
      | M_MasterWait pc \<Rightarrow>
          (case MasterWait pc (barrier st) of
             (Some pc', b) \<Rightarrow> st\<lparr>barrier := b, master_pc := M_MasterWait pc'\<rparr>
           | (None, b) \<Rightarrow> st\<lparr>barrier := b, master_pc := M_merge\<rparr>)
      | M_merge \<Rightarrow>
          st\<lparr>shared := (merge (arrange (rounds (shared st))) (shared st))
                          \<lparr>rounds := Suc (rounds (shared st))\<rparr>,
             master_pc := M_while\<rparr>
      | M_game_over \<Rightarrow> st\<lparr>game_over := True, master_pc := M_StartWorkers SW_lock\<rparr>
      | M_join i \<Rightarrow>
          if i < length (worker_pcs st)
          then st\<lparr>total := total st + partial_results st ! i, master_pc := M_join (Suc i)\<rparr>
          else st\<lparr>master_pc := M_return\<rparr>
      | M_return \<Rightarrow> st)"

definition f_enabled :: "nat \<Rightarrow> system \<Rightarrow> bool" where
  "f_enabled thread_no st =
     (thread_no < length (worker_pcs st) \<and>
      (case worker_pcs st ! thread_no of
         W_WorkerWait pc \<Rightarrow> WorkerWait_enabled thread_no pc (barrier st)
       | W_exit \<Rightarrow> False
       | _ \<Rightarrow> True))"

definition f_step ::
  "(nat \<Rightarrow> nat \<Rightarrow> nat \<Rightarrow> nat list) \<Rightarrow> Graph \<Rightarrow> int \<Rightarrow> nat \<Rightarrow> system \<Rightarrow> system" where
  "f_step indices g search_value thread_no st =
     (case worker_pcs st ! thread_no of
        W_while \<Rightarrow>
          st\<lparr>worker_pcs :=
               (worker_pcs st)[thread_no := (if game_over st then W_partial_results else W_chunks)]\<rparr>
      | W_chunks \<Rightarrow>
          st\<lparr>shared := take_chunks indices thread_no (shared st),
             worker_pcs := (worker_pcs st)[thread_no := W_f_node]\<rparr>
      | W_f_node \<Rightarrow>
          if pending (workers (shared st) ! thread_no) = []
          then st\<lparr>worker_pcs := (worker_pcs st)[thread_no := W_WorkerWait WW_lock]\<rparr>
          else st\<lparr>shared := worker_step g search_value thread_no (shared st)\<rparr>
      | W_WorkerWait pc \<Rightarrow>
          (case WorkerWait thread_no pc (l_gens st ! thread_no) (barrier st) of
             (Some pc', l_gen, b) \<Rightarrow>
               st\<lparr>barrier := b, l_gens := (l_gens st)[thread_no := l_gen],
                  worker_pcs := (worker_pcs st)[thread_no := W_WorkerWait pc']\<rparr>
           | (None, l_gen, b) \<Rightarrow>
               st\<lparr>barrier := b, l_gens := (l_gens st)[thread_no := l_gen],
                  worker_pcs := (worker_pcs st)[thread_no := W_while]\<rparr>)
      | W_partial_results \<Rightarrow>
          st\<lparr>partial_results :=
               (partial_results st)
                 [thread_no := partial_occurrences (workers (shared st) ! thread_no)],
             worker_pcs := (worker_pcs st)[thread_no := W_exit]\<rparr>
      | W_exit \<Rightarrow> st)"

fun enabled :: "system \<Rightarrow> thread \<Rightarrow> bool" where
  "enabled st Master = master_enabled st"
| "enabled st (Worker thread_no) = f_enabled thread_no st"

fun thread_step ::
  "(nat \<Rightarrow> nat \<Rightarrow> nat \<Rightarrow> nat list) \<Rightarrow> (nat \<Rightarrow> nat list \<Rightarrow> nat list) \<Rightarrow> Graph \<Rightarrow> int \<Rightarrow> thread \<Rightarrow>
   system \<Rightarrow> system" where
  "thread_step indices arrange g search_value Master st =
     (if master_enabled st then master_step arrange st else st)"
| "thread_step indices arrange g search_value (Worker thread_no) st =
     (if f_enabled thread_no st then f_step indices g search_value thread_no st else st)"

definition threads :: "system \<Rightarrow> thread list" where
  "threads st = Master # map Worker [0 ..< length (worker_pcs st)]"

definition next_thread :: "system \<Rightarrow> thread" where
  "next_thread st = (case filter (enabled st) (threads st) of [] \<Rightarrow> Master | t # ts \<Rightarrow> t)"

partial_function (option) run_threads ::
  "(nat \<Rightarrow> nat \<Rightarrow> nat \<Rightarrow> nat list) \<Rightarrow> (nat \<Rightarrow> nat list \<Rightarrow> nat list) \<Rightarrow> Graph \<Rightarrow> int \<Rightarrow>
   thread list \<Rightarrow> system \<Rightarrow> system option" where
  "run_threads indices arrange g search_value schedule st =
     (if master_pc st = M_return then Some st
      else
        (case schedule of
           [] \<Rightarrow>
             run_threads indices arrange g search_value []
               (thread_step indices arrange g search_value (next_thread st) st)
         | t # rest \<Rightarrow>
             run_threads indices arrange g search_value rest
               (thread_step indices arrange g search_value t st)))"

declare run_threads.simps [code]

definition init_system :: "Graph \<Rightarrow> nat \<Rightarrow> nat \<Rightarrow> system" where
  "init_system g start_node n_workers =
     \<lparr>shared = init_state g start_node n_workers,
      barrier = new_Barrier n_workers,
      game_over = False,
      first_iteration = True,
      partial_results = replicate n_workers 0,
      total = 0,
      master_pc = M_while,
      worker_pcs = replicate n_workers W_while,
      l_gens = replicate n_workers 0\<rparr>"

definition level_sync_run ::
  "(nat \<Rightarrow> nat \<Rightarrow> nat \<Rightarrow> nat list) \<Rightarrow> (nat \<Rightarrow> nat list \<Rightarrow> nat list) \<Rightarrow> Graph \<Rightarrow> nat \<Rightarrow> int \<Rightarrow> nat \<Rightarrow>
   thread list \<Rightarrow> system option" where
  "level_sync_run indices arrange g start_node search_value n_workers schedule =
     run_threads indices arrange g search_value schedule (init_system g start_node n_workers)"

definition level_sync_bfs ::
  "(nat \<Rightarrow> nat \<Rightarrow> nat \<Rightarrow> nat list) \<Rightarrow> (nat \<Rightarrow> nat list \<Rightarrow> nat list) \<Rightarrow> Graph \<Rightarrow> nat \<Rightarrow> int \<Rightarrow> nat \<Rightarrow>
   thread list \<Rightarrow> (error + int) option" where
  "level_sync_bfs indices arrange g start_node search_value n_workers schedule =
     (if n_nodes g \<le> start_node then Some (Inl OutOfRange)
      else
        (case level_sync_run indices arrange g start_node search_value n_workers schedule of
           None \<Rightarrow> None
         | Some st \<Rightarrow> Some (if fault (shared st) then Inl OutOfRange else Inr (total st))))"

definition parallel_bfs :: "Graph \<Rightarrow> nat \<Rightarrow> int \<Rightarrow> nat \<Rightarrow> thread list \<Rightarrow> (error + int) option" where
  "parallel_bfs g start_node search_value n_workers schedule =
     level_sync_bfs (worker_indices CHUNK_SIZE) (\<lambda>r. sort) g start_node search_value n_workers
       schedule"

definition parallel_bfs_static ::
  "(nat \<Rightarrow> nat list \<Rightarrow> nat list) \<Rightarrow> Graph \<Rightarrow> nat \<Rightarrow> int \<Rightarrow> nat \<Rightarrow> thread list \<Rightarrow> (error + int) option" where
  "parallel_bfs_static iteration_order g start_node search_value n_workers schedule =
     level_sync_bfs static_indices iteration_order g start_node search_value n_workers schedule"

section \<open>Notions used in the statements and invariants\<close>

text \<open>
  \<open>seen\<close> and \<open>marked\<close> are the sets of visited nodes of the two searches;
  \<open>bfs_trace \<dots> k\<close> is the state after \<open>k\<close> rounds of \<open>bfs_round\<close>, so that
  \<open>curr_frontier (bfs_trace \<dots> k)\<close> is the frontier of round \<open>k\<close>; \<open>all_examined\<close> is
  the workers' logs of examined nodes, one after the other. \<open>exec\<close> is the state the
  threads reach by the steps of a schedule, \<open>runnable\<close> says that every thread of a
  schedule can take its step when its turn comes, and a state is \<open>deadlocked\<close> when the
  orchestrator has not returned and no thread can take a step. The remaining definitions
  are the invariants of the loops and the example inputs.
\<close>

definition neighbours :: "Graph \<Rightarrow> nat set \<Rightarrow> nat set" where
  "neighbours g S = (\<Union>u \<in> S. set (adj (nodes g ! u)))"

definition seen :: "bool list \<Rightarrow> nat set" where
  "seen vis = {v. v < length vis \<and> vis ! v}"

definition seq_inv ::
  "Graph \<Rightarrow> nat \<Rightarrow> int \<Rightarrow> nat list \<Rightarrow> bool list \<Rightarrow> int \<Rightarrow> nat list \<Rightarrow> bool" where
  "seq_inv g s sv q vis occ dequeued \<longleftrightarrow>
     length vis = n_nodes g \<and> distinct q \<and> set q \<subseteq> seen vis \<and> s \<in> seen vis \<and>
     seen vis \<subseteq> reachable g s \<and> neighbours g (seen vis - set q) \<subseteq> seen vis \<and>
     distinct dequeued \<and> set dequeued = seen vis - set q \<and>
     occ = int (length (filter (\<lambda>u. node_value (nodes g ! u) = sv) dequeued))"

definition marked :: "int list \<Rightarrow> nat set" where
  "marked vis = {v. v < length vis \<and> vis ! v \<noteq> 0}"

definition buffered :: "bfs_state \<Rightarrow> nat set" where
  "buffered st = {v. \<exists>t < length (workers st). v \<in> set (partial_new_frontier (workers st ! t))}"

fun targets :: "Graph \<Rightarrow> action \<Rightarrow> nat set" where
  "targets g (Examine u) = set (adj (nodes g ! u))"
| "targets g (Check v) = {v}"
| "targets g (Mark v) = {v}"

definition awaited :: "Graph \<Rightarrow> bfs_state \<Rightarrow> nat set" where
  "awaited g st =
     {v. \<exists>t < length (workers st). \<exists>a \<in> set (pending (workers st ! t)). v \<in> targets g a}"

fun action_ok :: "Graph \<Rightarrow> nat set \<Rightarrow> nat set \<Rightarrow> action \<Rightarrow> bool" where
  "action_ok g F V0 (Examine u) = (u \<in> F)"
| "action_ok g F V0 (Check v) = (v \<in> neighbours g F)"
| "action_ok g F V0 (Mark v) = (v \<in> neighbours g F \<and> v \<notin> V0)"

definition matches :: "Graph \<Rightarrow> int \<Rightarrow> nat \<Rightarrow> int" where
  "matches g sv u = (if node_value (nodes g ! u) = sv then 1 else 0)"

fun owed :: "Graph \<Rightarrow> int \<Rightarrow> action \<Rightarrow> int" where
  "owed g sv (Examine u) = matches g sv u"
| "owed g sv (Check v) = 0"
| "owed g sv (Mark v) = 0"

fun examine_target :: "action \<Rightarrow> nat list" where
  "examine_target (Examine u) = [u]"
| "examine_target (Check v) = []"
| "examine_target (Mark v) = []"

definition handled :: "worker \<Rightarrow> nat multiset" where
  "handled w = mset (examined w) + mset (concat (map examine_target (pending w)))"

definition all_examined :: "bfs_state \<Rightarrow> nat list" where
  "all_examined st = concat (map examined (workers st))"

definition balance :: "Graph \<Rightarrow> int \<Rightarrow> worker \<Rightarrow> int" where
  "balance g sv w = partial_occurrences w + sum_list (map (owed g sv) (pending w))"

definition round_inv ::
  "Graph \<Rightarrow> int \<Rightarrow> nat set \<Rightarrow> nat set \<Rightarrow> int \<Rightarrow> nat multiset list \<Rightarrow> bfs_state \<Rightarrow> bool" where
  "round_inv g sv F V0 c H st \<longleftrightarrow>
     \<not> fault st \<and> length (visited st) = n_nodes g \<and>
     marked (visited st) = V0 \<union> buffered st \<and>
     buffered st \<subseteq> neighbours g F - V0 \<and>
     (\<forall>t < length (workers st). \<forall>a \<in> set (pending (workers st ! t)). action_ok g F V0 a) \<and>
     neighbours g F - V0 \<subseteq> buffered st \<union> awaited g st \<and>
     sum_list (map (balance g sv) (workers st)) = c \<and>
     map handled (workers st) = H"

definition todo :: "Graph \<Rightarrow> worker \<Rightarrow> nat set" where
  "todo g w = (\<Union>a \<in> set (pending w). targets g a)"


definition valid_partition :: "(nat \<Rightarrow> nat \<Rightarrow> nat \<Rightarrow> nat list) \<Rightarrow> bool" where
  "valid_partition indices \<longleftrightarrow>
     (\<forall>W L. 0 < W \<longrightarrow> mset (concat (map (\<lambda>t. indices t W L) [0..<W])) = mset [0..<L])"

definition rearranges :: "(nat \<Rightarrow> nat list \<Rightarrow> nat list) \<Rightarrow> bool" where
  "rearranges arrange \<longleftrightarrow> (\<forall>r xs. mset (arrange r xs) = mset xs)"

definition quiescent :: "Graph \<Rightarrow> bfs_state \<Rightarrow> bool" where
  "quiescent g st \<longleftrightarrow>
     \<not> fault st \<and> length (visited st) = n_nodes g \<and> 0 < length (workers st) \<and>
     set (curr_frontier st) \<subseteq> {..<n_nodes g} \<and>
     (\<forall>w \<in> set (workers st). pending w = [] \<and> partial_new_frontier w = [])"

definition bfs_inv :: "Graph \<Rightarrow> nat \<Rightarrow> int \<Rightarrow> bfs_state \<Rightarrow> bool" where
  "bfs_inv g s sv st \<longleftrightarrow>
     quiescent g st \<and> distinct (curr_frontier st) \<and>
     set (curr_frontier st) \<subseteq> marked (visited st) \<and> s \<in> marked (visited st) \<and>
     marked (visited st) \<subseteq> reachable g s \<and>
     neighbours g (marked (visited st) - set (curr_frontier st)) \<subseteq> marked (visited st) \<and>
     total_occurrences st =
       int (card {u \<in> marked (visited st) - set (curr_frontier st). node_value (nodes g ! u) = sv}) \<and>
     mset (all_examined st) = mset_set (marked (visited st) - set (curr_frontier st))"

primrec bfs_trace ::
  "(nat \<Rightarrow> nat \<Rightarrow> nat \<Rightarrow> nat list) \<Rightarrow> (nat \<Rightarrow> nat list \<Rightarrow> nat list) \<Rightarrow> Graph \<Rightarrow> nat \<Rightarrow> int \<Rightarrow> nat \<Rightarrow>
   (nat \<Rightarrow> nat list) \<Rightarrow> nat \<Rightarrow> bfs_state" where
  "bfs_trace indices arrange g start_node search_value n_workers schedule 0 =
     init_state g start_node n_workers"
| "bfs_trace indices arrange g start_node search_value n_workers schedule (Suc k) =
     bfs_round indices arrange g search_value schedule
       (bfs_trace indices arrange g start_node search_value n_workers schedule k)"

definition flags_grow :: "int list \<Rightarrow> int list \<Rightarrow> bool" where
  "flags_grow vis vis' \<longleftrightarrow>
     length vis' = length vis \<and> (\<forall>v < length vis. vis' ! v = vis ! v \<or> vis' ! v = 1)"

definition flags01 :: "int list \<Rightarrow> bool" where
  "flags01 vis \<longleftrightarrow> (\<forall>v < length vis. vis ! v = 0 \<or> vis ! v = 1)"

definition parallel_bfs_trace ::
  "Graph \<Rightarrow> nat \<Rightarrow> int \<Rightarrow> nat \<Rightarrow> (nat \<Rightarrow> nat list) \<Rightarrow> nat \<Rightarrow> bfs_state" where
  "parallel_bfs_trace g start_node search_value n_workers schedule k =
     bfs_trace (worker_indices CHUNK_SIZE) (\<lambda>r. sort) g start_node search_value n_workers
       schedule k"

definition exec ::
  "(nat \<Rightarrow> nat \<Rightarrow> nat \<Rightarrow> nat list) \<Rightarrow> (nat \<Rightarrow> nat list \<Rightarrow> nat list) \<Rightarrow> Graph \<Rightarrow> int \<Rightarrow>
   thread list \<Rightarrow> system \<Rightarrow> system" where
  "exec indices arrange g search_value schedule st =
     fold (thread_step indices arrange g search_value) schedule st"

fun runnable ::
  "(nat \<Rightarrow> nat \<Rightarrow> nat \<Rightarrow> nat list) \<Rightarrow> (nat \<Rightarrow> nat list \<Rightarrow> nat list) \<Rightarrow> Graph \<Rightarrow> int \<Rightarrow>
   thread list \<Rightarrow> system \<Rightarrow> bool" where
  "runnable indices arrange g search_value [] st = True"
| "runnable indices arrange g search_value (t # rest) st =
     (enabled st t \<and>
      runnable indices arrange g search_value rest
        (thread_step indices arrange g search_value t st))"

fun frontiers ::
  "(nat \<Rightarrow> nat \<Rightarrow> nat \<Rightarrow> nat list) \<Rightarrow> (nat \<Rightarrow> nat list \<Rightarrow> nat list) \<Rightarrow> Graph \<Rightarrow> int \<Rightarrow>
   thread list \<Rightarrow> system \<Rightarrow> nat list list" where
  "frontiers indices arrange g search_value [] st = [curr_frontier (shared st)]"
| "frontiers indices arrange g search_value (t # rest) st =
     curr_frontier (shared st)
     # frontiers indices arrange g search_value rest
         (thread_step indices arrange g search_value t st)"

definition deadlocked :: "system \<Rightarrow> bool" where
  "deadlocked st \<longleftrightarrow> master_pc st \<noteq> M_return \<and> list_all (\<lambda>t. \<not> enabled st t) (threads st)"

abbreviation by_chunks :: "nat \<Rightarrow> nat \<Rightarrow> nat \<Rightarrow> nat list" where
  "by_chunks \<equiv> worker_indices CHUNK_SIZE"

abbreviation in_order :: "nat \<Rightarrow> nat list \<Rightarrow> nat list" where
  "in_order \<equiv> \<lambda>r. sort"

definition G5 :: Graph where
  "G5 = \<lparr>n_nodes = 5,
          nodes = [\<lparr>node_value = 7, adj = [1, 2]\<rparr>, \<lparr>node_value = 7, adj = [0, 3]\<rparr>,
                   \<lparr>node_value = 7, adj = [0, 4]\<rparr>, \<lparr>node_value = 7, adj = [1]\<rparr>,
                   \<lparr>node_value = 7, adj = [2]\<rparr>]\<rparr>"

definition G6 :: Graph where
  "G6 = \<lparr>n_nodes = 6,
          nodes = [\<lparr>node_value = 7, adj = [1, 2, 3, 4]\<rparr>, \<lparr>node_value = 3, adj = [0, 5]\<rparr>,
                   \<lparr>node_value = 7, adj = [0]\<rparr>, \<lparr>node_value = 3, adj = [0, 5]\<rparr>,
                   \<lparr>node_value = 7, adj = [0]\<rparr>, \<lparr>node_value = 7, adj = [1, 3]\<rparr>]\<rparr>"



definition G1 :: Graph where
  "G1 = \<lparr>n_nodes = 1, nodes = [\<lparr>node_value = 7, adj = [0]\<rparr>]\<rparr>"

text \<open>
  The schedules of the examples. In \<open>wakeup_lost_G1\<close> (one worker, graph \<open>G1\<close>) the
  orchestrator takes three steps: the test of its loop, the lock of \<^verbatim>\<open>m_mutex\<close> and the
  test of \<^verbatim>\<open>stop_master\<close> in \<^verbatim>\<open>MasterWait\<close>, which finds it false. The worker takes
  thirteen: the test of \<^verbatim>\<open>game_over\<close>, its index ranges, the examination of node 0, the
  check of its neighbour 0, the end of its work, and in \<^verbatim>\<open>WorkerWait\<close> the lock of
  \<^verbatim>\<open>w_mutex\<close>, \<^verbatim>\<open>l_gen\<close>, the decrement of \<^verbatim>\<open>m_count\<close> to 0, its reset, \<^verbatim>\<open>stop_master = true\<close>,
  \<^verbatim>\<open>m_cond.notify_one()\<close>, the test of the generation and the wait on \<^verbatim>\<open>w_cond\<close>. Then the
  orchestrator takes the step it was about to take: the wait on \<^verbatim>\<open>m_cond\<close>. The other
  schedules named \<open>wakeup_lost\<close> do the same with the workers of their example; in those
  named \<open>round_1\<close> the orchestrator first waits as intended for round 0 (four steps, the
  last one the wait), is woken by the last worker, merges, starts the workers and tests
  \<^verbatim>\<open>stop_master\<close> (twelve steps), and loses the wake-up of round 1. In \<open>workers_first_G1\<close>
  the worker has notified before the orchestrator enters \<^verbatim>\<open>MasterWait\<close>.
\<close>

definition wakeup_lost_G1 :: "thread list" where
  "wakeup_lost_G1 = replicate 3 Master @ replicate 13 (Worker 0) @ [Master]"

definition wakeup_lost_G1_2 :: "thread list" where
  "wakeup_lost_G1_2 =
     replicate 3 Master @ replicate 10 (Worker 0) @ replicate 11 (Worker 1) @ [Master]"

definition wakeup_lost_G5 :: "thread list" where
  "wakeup_lost_G5 =
     replicate 3 Master @ replicate 13 (Worker 0) @ replicate 11 (Worker 1) @ [Master]"

definition wakeup_lost_round_1_G5 :: "thread list" where
  "wakeup_lost_round_1_G5 =
     replicate 4 Master @ replicate 16 (Worker 0) @ replicate 12 Master
     @ replicate 22 (Worker 0) @ [Master]"

definition wakeup_lost_round_1_G6 :: "thread list" where
  "wakeup_lost_round_1_G6 =
     replicate 4 Master @ replicate 17 (Worker 0) @ replicate 11 (Worker 1)
     @ replicate 12 Master @ replicate 17 (Worker 1) @ replicate 19 (Worker 0) @ [Master]"

definition workers_first_G1 :: "thread list" where
  "workers_first_G1 = replicate 13 (Worker 0) @ replicate 5 Master"

definition zigzag :: "nat \<Rightarrow> nat list \<Rightarrow> nat list" where
  "zigzag r xs = (if even r then rev xs else xs)"

definition sched_a :: "nat \<Rightarrow> nat list" where
  "sched_a r = [1, 0, 1, 0, 0, 1, 1]"

definition sched_b :: "nat \<Rightarrow> nat list" where
  "sched_b r = (if even r then [0, 0, 1] else [1, 1, 1, 0, 1])"


section \<open>The chunk partition of a frontier\<close>

lemma chunk_block: "0 < (C::nat) \<Longrightarrow> (i * C \<le> j \<and> j < i * C + C) = (j div C = i)"
proof
  assume "0 < C" "i * C \<le> j \<and> j < i * C + C"
  then show "j div C = i" by (intro div_nat_eqI) (simp_all add: mult.commute)
next
  assume C: "0 < C" and "j div C = i"
  then have "i * C \<le> j" using div_times_less_eq_dividend [of j C] by simp
  moreover have "j < i * C + C"
    using dividend_less_div_times [OF C, of j] \<open>j div C = i\<close> by simp
  ultimately show "i * C \<le> j \<and> j < i * C + C" by simp
qed

lemma stride_unfold: "(\<exists>k. (d::nat) = i + k * W) = (d = i \<or> (\<exists>k. d = i + W + k * W))"
proof
  assume "\<exists>k. d = i + k * W"
  then obtain k where k: "d = i + k * W" by blast
  show "d = i \<or> (\<exists>k. d = i + W + k * W)"
  proof (cases k)
    case 0 then show ?thesis using k by simp
  next
    case (Suc k') then show ?thesis using k by auto
  qed
next
  assume "d = i \<or> (\<exists>k. d = i + W + k * W)"
  then show "\<exists>k. d = i + k * W"
  proof
    assume "d = i" then have "d = i + 0 * W" by simp
    then show ?thesis by blast
  next
    assume "\<exists>k. d = i + W + k * W"
    then obtain k where "d = i + W + k * W" by blast
    then have "d = i + Suc k * W" by simp
    then show ?thesis by blast
  qed
qed

lemma set_chunk_loop:
  assumes "0 < W" "0 < C"
  shows "set (chunk_loop W C nc i) = {j. j div C < nc \<and> (\<exists>k. j div C = i + k * W)}"
  using assms
proof (induction W C nc i rule: chunk_loop.induct)
  case (1 W C nc i)
  show ?case
  proof (cases "i < nc")
    case False
    then have "chunk_loop W C nc i = []" by (subst chunk_loop.simps) simp
    moreover have "{j. j div C < nc \<and> (\<exists>k. j div C = i + k * W)} = {}" using False
      by auto
    ultimately show ?thesis by simp
  next
    case True
    have ih: "set (chunk_loop W C nc (i + W)) =
              {j. j div C < nc \<and> (\<exists>k. j div C = i + W + k * W)}"
      using 1 True by simp
    have unf: "chunk_loop W C nc i = [i * C ..< i * C + C] @ chunk_loop W C nc (i + W)"
      using True \<open>0 < W\<close> by (subst chunk_loop.simps) simp
    show ?thesis
    proof (rule set_eqI)
      fix j
      have "j \<in> set (chunk_loop W C nc i) \<longleftrightarrow>
            (i * C \<le> j \<and> j < i * C + C) \<or> (j div C < nc \<and> (\<exists>k. j div C = i + W + k * W))"
        by (simp add: unf ih)
      also have "\<dots> \<longleftrightarrow> j div C = i \<or> (j div C < nc \<and> (\<exists>k. j div C = i + W + k * W))"
        by (simp add: chunk_block [OF \<open>0 < C\<close>])
      also have "\<dots> \<longleftrightarrow> j div C < nc \<and> (j div C = i \<or> (\<exists>k. j div C = i + W + k * W))"
        using True by auto
      also have "\<dots> \<longleftrightarrow> j div C < nc \<and> (\<exists>k. j div C = i + k * W)"
        by (simp add: stride_unfold [of "j div C" i W])
      finally show "j \<in> set (chunk_loop W C nc i) \<longleftrightarrow>
                    j \<in> {j. j div C < nc \<and> (\<exists>k. j div C = i + k * W)}"
        by simp
    qed
  qed
qed

lemma distinct_chunk_loop:
  assumes "0 < W" "0 < C"
  shows "distinct (chunk_loop W C nc i)"
  using assms
proof (induction W C nc i rule: chunk_loop.induct)
  case (1 W C nc i)
  show ?case
  proof (cases "i < nc")
    case False
    then have "chunk_loop W C nc i = []" by (subst chunk_loop.simps) simp
    then show ?thesis by simp
  next
    case True
    have unf: "chunk_loop W C nc i = [i * C ..< i * C + C] @ chunk_loop W C nc (i + W)"
      using True \<open>0 < W\<close> by (subst chunk_loop.simps) simp
    have ih: "distinct (chunk_loop W C nc (i + W))" using 1 True by simp
    have "j \<notin> set (chunk_loop W C nc (i + W))" if "i * C \<le> j \<and> j < i * C + C" for j
    proof -
      have "j div C = i" using that chunk_block [OF \<open>0 < C\<close>] by blast
      then show ?thesis using \<open>0 < W\<close> by (auto simp: set_chunk_loop [OF \<open>0 < W\<close> \<open>0 < C\<close>])
    qed
    then show ?thesis using ih by (auto simp: unf)
  qed
qed

lemma stride_mod: "t < W \<Longrightarrow> (\<exists>k. (d::nat) = t + k * W) = (d mod W = t)"
proof
  assume "t < W" "\<exists>k. d = t + k * W"
  then show "d mod W = t" by auto
next
  assume "t < W" "d mod W = t"
  then have "d = t + (d div W) * W" using div_mult_mod_eq [of d W] by simp
  then show "\<exists>k. d = t + k * W" by blast
qed

lemma set_worker_indices:
  assumes "0 < W" "0 < C" "t < W"
  shows "set (worker_indices C t W L) =
         {j. j < L \<and> (if j div C < L div C then (j div C) mod W = t else t = 0)}"
proof (rule set_eqI)
  fix j
  have full: "j div C < L div C \<Longrightarrow> j < L"
    using \<open>0 < C\<close> by (metis div_le_mono leD leI)
  have tail: "(L div C * C \<le> j \<and> j < L) = (j < L \<and> \<not> j div C < L div C)"
  proof -
    have "(L div C * C \<le> j) = (L div C \<le> j div C)"
      using \<open>0 < C\<close> by (simp add: less_eq_div_iff_mult_less_eq)
    then show ?thesis by auto
  qed
  have rem: "j < L \<Longrightarrow> \<not> j div C < L div C \<Longrightarrow> 0 < L mod C"
  proof -
    assume a: "j < L" "\<not> j div C < L div C"
    then have "L div C * C \<le> j" using tail by blast
    then have "L div C * C < L" using a by simp
    then show "0 < L mod C" using div_mult_mod_eq [of L C] by (cases "L mod C = 0") auto
  qed
  show "j \<in> set (worker_indices C t W L) \<longleftrightarrow>
        j \<in> {j. j < L \<and> (if j div C < L div C then (j div C) mod W = t else t = 0)}"
    using full tail rem
   
      by (auto simp: worker_indices_def Let_def set_chunk_loop [OF assms(1,2)] stride_mod [OF assms(3)])
qed

lemma distinct_worker_indices:
  assumes "0 < W" "0 < C"
  shows "distinct (worker_indices C t W L)"
proof -
  have "j \<notin> set (chunk_loop W C (L div C) t)" if "L div C * C \<le> j" for j
  proof -
    have "L div C \<le> j div C" using that \<open>0 < C\<close> by (simp add: less_eq_div_iff_mult_less_eq)
    then show ?thesis by (auto simp: set_chunk_loop [OF assms])
  qed
  then show ?thesis
    by (auto simp: worker_indices_def Let_def distinct_chunk_loop [OF assms])
qed

lemma worker_indices_disjoint:
  assumes "0 < W" "0 < C" "t < W" "t' < W" "t \<noteq> t'"
  shows "set (worker_indices C t W L) \<inter> set (worker_indices C t' W L) = {}"
  using assms(5)
  by (auto simp: set_worker_indices [OF assms(1,2,3)] set_worker_indices [OF assms(1,2,4)]
           split: if_splits)

lemma worker_indices_cover:
  assumes W: "0 < W" and C: "0 < C"
  shows "(\<Union>t \<in> {0..<W}. set (worker_indices C t W L)) = {0..<L}"
proof (rule set_eqI)
  fix j
  show "j \<in> (\<Union>t \<in> {0..<W}. set (worker_indices C t W L)) \<longleftrightarrow> j \<in> {0..<L}"
  proof
    assume "j \<in> (\<Union>t \<in> {0..<W}. set (worker_indices C t W L))"
    then show "j \<in> {0..<L}" by (auto simp: set_worker_indices [OF W C])
  next
    assume jL: "j \<in> {0..<L}"
    define t where "t = (if j div C < L div C then (j div C) mod W else 0)"
    have "t < W" using W by (simp add: t_def)
    moreover have "j \<in> set (worker_indices C t W L)"
      unfolding set_worker_indices [OF W C \<open>t < W\<close>] using jL by (simp add: t_def)
    ultimately show "j \<in> (\<Union>t \<in> {0..<W}. set (worker_indices C t W L))" by auto
  qed
qed

text \<open>
  Claim C2. For every frontier length \<open>L\<close>, worker count \<open>W \<ge> 1\<close> and chunk size
  \<open>C \<ge> 1\<close>, the index lists the workers compute for themselves are pairwise disjoint,
  their union is exactly \<open>{0, \<dots>, L - 1}\<close>, and no worker lists an index twice. The
  lists are those of the policy: worker \<open>t\<close> has the indices of the full chunks
  \<open>t, t + W, t + 2W, \<dots>\<close> (chunk \<open>j div C\<close> is full when it is below \<open>L div C\<close>), and the
  trailing \<open>L mod C\<close> indices all belong to worker 0.
\<close>

theorem partition_coverage:
  assumes "1 \<le> W" "1 \<le> C"
  shows "(\<forall>t < W. \<forall>t' < W. t \<noteq> t' \<longrightarrow>
            set (worker_indices C t W L) \<inter> set (worker_indices C t' W L) = {})
       \<and> (\<Union>t \<in> {0..<W}. set (worker_indices C t W L)) = {0..<L}
       \<and> (\<forall>t < W. distinct (worker_indices C t W L))
       \<and> (\<forall>t < W. set (worker_indices C t W L) =
             {j. j < L \<and> (if j div C < L div C then (j div C) mod W = t else t = 0)})"
proof -
  have W: "0 < W" and C: "0 < C" using assms by simp_all
  have "\<forall>t < W. \<forall>t' < W. t \<noteq> t' \<longrightarrow>
            set (worker_indices C t W L) \<inter> set (worker_indices C t' W L) = {}"
    by (intro allI impI) (rule worker_indices_disjoint [OF W C])
  moreover have "(\<Union>t \<in> {0..<W}. set (worker_indices C t W L)) = {0..<L}"
    by (rule worker_indices_cover [OF W C])
  moreover have "\<forall>t < W. distinct (worker_indices C t W L)"
    by (intro allI impI) (rule distinct_worker_indices [OF W C])
  moreover have "\<forall>t < W. set (worker_indices C t W L) =
             {j. j < L \<and> (if j div C < L div C then (j div C) mod W = t else t = 0)}"
    by (intro allI impI) (rule set_worker_indices [OF W C])
  ultimately show ?thesis by (intro conjI)
qed

theorem partition_coverage_witness:
  "(1::nat) \<le> 3 \<and> (1::nat) \<le> 2
   \<and> worker_indices 2 0 3 11 = [0, 1, 6, 7, 10]
   \<and> worker_indices 2 1 3 11 = [2, 3, 8, 9]
   \<and> worker_indices 2 2 3 11 = [4, 5]
   \<and> set (worker_indices 2 0 3 11) \<inter> set (worker_indices 2 1 3 11) = {}
   \<and> (\<Union>t \<in> {0..<3}. set (worker_indices 2 t 3 11)) = {0..<11}
   \<and> distinct (worker_indices 2 2 3 11)"
proof -
  have h: "(1::nat) \<le> 3" "(1::nat) \<le> 2" by simp_all
  have e0: "worker_indices 2 0 3 11 = [0, 1, 6, 7, 10]" by code_simp
  have e1: "worker_indices 2 1 3 11 = [2, 3, 8, 9]" by code_simp
  have e2: "worker_indices 2 2 3 11 = [4, 5]" by code_simp
  note th = partition_coverage [OF h, of 11]
  have d: "\<forall>t < 3. \<forall>t' < 3. t \<noteq> t' \<longrightarrow>
            set (worker_indices 2 t 3 11) \<inter> set (worker_indices 2 t' 3 11) = {}"
    by (rule th [THEN conjunct1])
  have c: "(\<Union>t \<in> {0..<3}. set (worker_indices 2 t 3 11)) = {0..<11}"
    by (rule th [THEN conjunct2, THEN conjunct1])
  have i: "\<forall>t < 3. distinct (worker_indices 2 t 3 11)"
    by (rule th [THEN conjunct2, THEN conjunct2, THEN conjunct1])
  have "set (worker_indices 2 0 3 11) \<inter> set (worker_indices 2 1 3 11) = {}"
    using d [rule_format, of 0 1] by simp
  moreover have "distinct (worker_indices 2 2 3 11)"
    using i [rule_format, of 2] by simp
  ultimately show ?thesis using h e0 e1 e2 c by (intro conjI)
qed

section \<open>The sequential search\<close>

lemma seen_update: "v < length vis \<Longrightarrow> seen (vis[v := True]) = insert v (seen vis)"
  by (auto simp: seen_def nth_list_update)

lemma seen_bound: "seen vis \<subseteq> {..<length vis}"
  by (auto simp: seen_def)

lemma finite_seen: "finite (seen vis)"
  using seen_bound finite_subset by blast

lemma card_seen_le: "card (seen vis) \<le> length vis"
  using subset_eq_atLeast0_lessThan_card [of "seen vis" "length vis"] seen_bound [of vis]
  by (simp add: lessThan_atLeast0)

lemma seq_expand_ok:
  assumes "\<forall>v \<in> set vs. v < length vis"
  shows "\<exists>new vis'. seq_expand vs q vis = Inr (q @ new, vis') \<and> length vis' = length vis \<and>
           seen vis' = seen vis \<union> set vs \<and> set new = set vs - seen vis \<and> distinct new"
  using assms
proof (induction vs arbitrary: q vis)
  case Nil
  then show ?case by simp
next
  case (Cons v vs)
  have v: "v < length vis" using Cons.prems by simp
  show ?case
  proof (cases "vis ! v")
    case True
    have pre: "\<forall>x \<in> set vs. x < length vis" using Cons.prems by simp
    obtain new vis' where r: "seq_expand vs q vis = Inr (q @ new, vis')" "length vis' = length vis"
      "seen vis' = seen vis \<union> set vs" "set new = set vs - seen vis" "distinct new"
      using Cons.IH [OF pre] by blast
    have "v \<in> seen vis" using True v by (simp add: seen_def)
    then show ?thesis using r True v by auto
  next
    case False
    have pre: "\<forall>x \<in> set vs. x < length (vis[v := True])" using Cons.prems by simp
    obtain new vis' where r: "seq_expand vs (q @ [v]) (vis[v := True]) = Inr ((q @ [v]) @ new, vis')"
      "length vis' = length (vis[v := True])"
      "seen vis' = seen (vis[v := True]) \<union> set vs" "set new = set vs - seen (vis[v := True])"
      "distinct new"
      using Cons.IH [OF pre] by blast
    have nv: "v \<notin> seen vis" using False by (simp add: seen_def)
    have "seq_expand (v # vs) q vis = Inr (q @ (v # new), vis')" using r(1) False v by simp
    moreover have "length vis' = length vis" using r(2) by simp
    moreover have "seen vis' = seen vis \<union> set (v # vs)" using r(3)
      by (simp add: seen_update [OF v])
    moreover have "set (v # new) = set (v # vs) - seen vis"
      using r(4) nv by (auto simp: seen_update [OF v])
    moreover have "distinct (v # new)" using r(4,5) by (simp add: seen_update [OF v])
    ultimately show ?thesis by blast
  qed
qed

lemma reachable_closed:
  assumes "s \<in> V" "neighbours g V \<subseteq> V" "V \<subseteq> {..<length (nodes g)}"
  shows "reachable g s \<subseteq> V"
proof
  fix u assume "u \<in> reachable g s"
  then have "(s, u) \<in> (edges g)\<^sup>*" by (simp add: reachable_def)
  then show "u \<in> V"
  proof (induction rule: rtrancl_induct)
    case base
    then show ?case using assms(1) .
  next
    case (step y z)
    then have "z \<in> set (adj (nodes g ! y))" by (simp add: edges_def)
    then have "z \<in> neighbours g V" using step.IH by (auto simp: neighbours_def)
    then show ?case using assms(2) by blast
  qed
qed

lemma reachable_start: "s \<in> reachable g s"
  by (simp add: reachable_def)

lemma reachable_step:
  "u \<in> reachable g s \<Longrightarrow> u < length (nodes g) \<Longrightarrow> v \<in> set (adj (nodes g ! u)) \<Longrightarrow> v \<in> reachable g s"
  unfolding reachable_def edges_def by (auto intro: rtrancl_into_rtrancl)

lemma wf_graph_adj:
  "wf_graph g \<Longrightarrow> u < n_nodes g \<Longrightarrow> v \<in> set (adj (nodes g ! u)) \<Longrightarrow> v < n_nodes g"
  unfolding wf_graph_def by (metis nth_mem)

lemma distinct_filter_card:
  "distinct xs \<Longrightarrow> length (filter P xs) = card {u \<in> set xs. P u}"
proof -
  assume "distinct xs"
  then have "distinct (filter P xs)" by simp
  then have "card (set (filter P xs)) = length (filter P xs)" by (rule distinct_card)
  then show ?thesis by simp
qed

lemma seq_loop_correct:
  assumes wf: "wf_graph g"
  shows "seq_inv g s sv q vis occ dq \<Longrightarrow>
         \<exists>order. seq_loop g sv q vis occ dq = Some (Inr (reachable_matches g s sv, order)) \<and>
                 distinct order \<and> set order = reachable g s"
proof (induction "length q + (n_nodes g - card (seen vis))" arbitrary: q vis occ dq rule: less_induct)
  case less
  note inv = less.prems [unfolded seq_inv_def]
  have len: "length vis = n_nodes g" and nodes: "length (nodes g) = n_nodes g"
    using inv wf by (simp_all add: wf_graph_def)
  show ?case
  proof (cases q)
    case Nil
    have "neighbours g (seen vis) \<subseteq> seen vis" using inv Nil by simp
    moreover have "seen vis \<subseteq> {..<length (nodes g)}" using seen_bound [of vis] len nodes
      by simp
    ultimately have "reachable g s \<subseteq> seen vis" using inv reachable_closed by blast
    then have r: "seen vis = reachable g s" using inv by blast
    then have dq: "set dq = reachable g s" "distinct dq" using inv Nil by simp_all
    have "occ = int (card {u \<in> set dq. node_value (nodes g ! u) = sv})"
      using inv distinct_filter_card [OF dq(2)] by simp
    then have "occ = reachable_matches g s sv" using dq(1) by (simp add: reachable_matches_def)
    moreover have "seq_loop g sv q vis occ dq = Some (Inr (occ, dq))"
      using Nil by (subst seq_loop.simps) simp
    ultimately show ?thesis using dq by simp
  next
    case (Cons cur q')
    have cur_seen: "cur \<in> seen vis" using inv Cons by simp
    then have cur: "cur < n_nodes g" using seen_bound [of vis] len by auto
    have cur_nq: "cur \<notin> set q'" and dq': "distinct q'" using inv Cons by simp_all
    let ?A = "adj (nodes g ! cur)"
    have "\<forall>v \<in> set ?A. v < length vis" using wf_graph_adj [OF wf cur] len by simp
    from seq_expand_ok [OF this, of q']
    obtain new vis' where r: "seq_expand ?A q' vis = Inr (q' @ new, vis')" "length vis' = length vis"
      "seen vis' = seen vis \<union> set ?A" "set new = set ?A - seen vis" "distinct new"
      by blast
    let ?occ = "if node_value (nodes g ! cur) = sv then occ + 1 else occ"
    have unf: "seq_loop g sv q vis occ dq = seq_loop g sv (q' @ new) vis' ?occ (dq @ [cur])"
      using Cons cur nodes r(1) by (subst seq_loop.simps) simp
    have sub: "set q' \<subseteq> seen vis" using inv Cons by simp
    have done_eq: "seen vis' - set (q' @ new) = insert cur (seen vis - set q)"
      using r(3,4) cur_seen cur_nq Cons by auto
    have i1: "distinct (q' @ new)" using dq' r(4,5) sub by auto
    have i2: "set (q' @ new) \<subseteq> seen vis'" using sub r(3,4) by auto
    have i3: "s \<in> seen vis'" using inv r(3) by simp
    have i4: "seen vis' \<subseteq> reachable g s"
    proof -
      have "cur \<in> reachable g s" using inv cur_seen by blast
      then have "set ?A \<subseteq> reachable g s" using reachable_step cur nodes by (metis subsetI)
      then show ?thesis using inv r(3) by simp
    qed
    have i5: "neighbours g (seen vis' - set (q' @ new)) \<subseteq> seen vis'"
    proof -
      have "neighbours g (insert cur (seen vis - set q)) = set ?A \<union> neighbours g (seen vis - set q)"
        by (auto simp: neighbours_def)
      then show ?thesis using inv r(3) done_eq by auto
    qed
    have cur_ndq: "cur \<notin> set dq" using inv Cons by simp
    have i6: "distinct (dq @ [cur])" using inv cur_ndq by simp
    have i7: "set (dq @ [cur]) = seen vis' - set (q' @ new)" unfolding done_eq using inv by auto
    have i8: "?occ = int (length (filter (\<lambda>u. node_value (nodes g ! u) = sv) (dq @ [cur])))"
      using inv by simp
    have inv': "seq_inv g s sv (q' @ new) vis' ?occ (dq @ [cur])"
      unfolding seq_inv_def using i1 i2 i3 i4 i5 i6 i7 i8 r(2) len by simp
    have card': "card (seen vis') = card (seen vis) + length new"
    proof -
      have "seen vis' = seen vis \<union> set new" using r(3,4) by auto
      moreover have "seen vis \<inter> set new = {}" using r(4) by auto
      ultimately have "card (seen vis') = card (seen vis) + card (set new)"
        using card_Un_disjoint [of "seen vis" "set new"] finite_seen by simp
      then show ?thesis using r(5) by (simp add: distinct_card)
    qed
    have "card (seen vis') \<le> n_nodes g" using card_seen_le [of vis'] r(2) len by simp
    then have dec: "length (q' @ new) + (n_nodes g - card (seen vis')) < length q + (n_nodes g - card (seen vis))"
      using card' Cons by simp
    show ?thesis using less.hyps [OF dec inv'] unf by simp
  qed
qed

lemma sequential_bfs_run_result:
  assumes "wf_graph g" "start_node < n_nodes g"
  shows "\<exists>order. sequential_bfs_run g start_node search_value =
            Some (Inr (reachable_matches g start_node search_value, order)) \<and>
          distinct order \<and> set order = reachable g start_node"
proof -
  let ?vis = "(replicate (n_nodes g) False)[start_node := True]"
  have s: "seen ?vis = {start_node}" using assms(2) by (auto simp: seen_def nth_list_update)
  have "seq_inv g start_node search_value [start_node] ?vis 0 []"
    unfolding seq_inv_def s by (simp add: reachable_start neighbours_def)
  from seq_loop_correct [OF assms(1) this] show ?thesis
    using assms(2) by (simp add: sequential_bfs_run_def)
qed

lemma sequential_bfs_result:
  assumes "wf_graph g" "start_node < n_nodes g"
  shows "sequential_bfs g start_node search_value =
         Some (Inr (reachable_matches g start_node search_value))"
  using sequential_bfs_run_result [OF assms, of search_value]
  by (auto simp: sequential_bfs_def)

text \<open>
  Claim C9. On a well-formed graph and a valid start node, \<open>sequential_bfs\<close> returns, and
  what it returns is exactly the number of nodes reachable from the start node along
  adjacency-list edges (the start node included) whose value equals the search value.
  Each reachable node is counted once: the nodes the loop dequeues (and whose value it
  tests) are exactly the reachable nodes, each dequeued exactly once.
\<close>

theorem sequential_bfs_counts_reachable:
  assumes "wf_graph g" "start_node < n_nodes g"
  shows "sequential_bfs g start_node search_value =
           Some (Inr (int (card {u \<in> reachable g start_node.
                                  node_value (nodes g ! u) = search_value})))
       \<and> (\<exists>order. sequential_bfs_run g start_node search_value =
              Some (Inr (int (card {u \<in> reachable g start_node.
                                     node_value (nodes g ! u) = search_value}), order)) \<and>
            distinct order \<and> set order = reachable g start_node)"
  using sequential_bfs_result [OF assms, of search_value]
    sequential_bfs_run_result [OF assms, of search_value]
  by (simp add: reachable_matches_def)

theorem sequential_bfs_counts_reachable_witness:
  "wf_graph G5 \<and> (0::nat) < n_nodes G5 \<and> sequential_bfs G5 0 7 = Some (Inr 5)
   \<and> sequential_bfs_run G5 0 7 = Some (Inr (5, [0, 1, 2, 3, 4]))
   \<and> int (card {u \<in> reachable G5 0. node_value (nodes G5 ! u) = 7}) = 5"
proof -
  have wf: "wf_graph G5" by (simp add: wf_graph_def G5_def)
  have st: "(0::nat) < n_nodes G5" by (simp add: G5_def)
  have ev: "sequential_bfs G5 0 7 = Some (Inr 5)" by code_simp
  have ev2: "sequential_bfs_run G5 0 7 = Some (Inr (5, [0, 1, 2, 3, 4]))" by code_simp
  have "Some (Inr (int (card {u \<in> reachable G5 0. node_value (nodes G5 ! u) = 7})))
        = (Some (Inr 5) :: (error + int) option)"
    using sequential_bfs_counts_reachable [OF wf st, of 7, THEN conjunct1] ev
    by (rule trans [OF sym])
  then have "int (card {u \<in> reachable G5 0. node_value (nodes G5 ! u) = 7}) = 5"
    by (simp only: option.inject sum.inject)
  then show ?thesis using wf st ev ev2 by (intro conjI)
qed

section \<open>One round of the workers\<close>

lemma put_worker_simps [simp]:
  "workers (put_worker t w st) = (workers st)[t := w]"
  "visited (put_worker t w st) = visited st"
  "fault (put_worker t w st) = fault st"
  "curr_frontier (put_worker t w st) = curr_frontier st"
  "rounds (put_worker t w st) = rounds st"
  by (simp_all add: put_worker_def)

lemma buffered_upd [simp]:
  "buffered (st\<lparr>visited := vis\<rparr>) = buffered st"
  "buffered (st\<lparr>fault := b\<rparr>) = buffered st"
  by (simp_all add: buffered_def)

lemma awaited_upd [simp]:
  "awaited g (st\<lparr>visited := vis\<rparr>) = awaited g st"
  by (simp_all add: awaited_def)

lemma buffered_put:
  assumes "t < length (workers st)"
  shows "buffered (put_worker t w st) =
         set (partial_new_frontier w) \<union>
         {v. \<exists>t' < length (workers st). t' \<noteq> t \<and> v \<in> set (partial_new_frontier (workers st ! t'))}"
  using assms by (auto simp: buffered_def nth_list_update split: if_splits)

lemma buffered_split:
  assumes "t < length (workers st)"
  shows "buffered st =
         set (partial_new_frontier (workers st ! t)) \<union>
         {v. \<exists>t' < length (workers st). t' \<noteq> t \<and> v \<in> set (partial_new_frontier (workers st ! t'))}"
  using assms by (auto simp: buffered_def)

lemma buffered_put_same:
  assumes "t < length (workers st)" "partial_new_frontier w = partial_new_frontier (workers st ! t)"
  shows "buffered (put_worker t w st) = buffered st"
  using buffered_put [OF assms(1), of w] buffered_split [OF assms(1)] assms(2) by simp

lemma buffered_put_snoc:
  assumes "t < length (workers st)"
    "partial_new_frontier w = partial_new_frontier (workers st ! t) @ [v]"
  shows "buffered (put_worker t w st) = insert v (buffered st)"
  using buffered_put [OF assms(1), of w] buffered_split [OF assms(1)] assms(2) by auto

lemma awaited_put:
  assumes "t < length (workers st)"
  shows "awaited g (put_worker t w st) =
         todo g w \<union> {v. \<exists>t' < length (workers st). t' \<noteq> t \<and> v \<in> todo g (workers st ! t')}"
  using assms by (auto simp: awaited_def todo_def nth_list_update split: if_splits)

lemma awaited_split:
  assumes "t < length (workers st)"
  shows "awaited g st =
         todo g (workers st ! t) \<union>
         {v. \<exists>t' < length (workers st). t' \<noteq> t \<and> v \<in> todo g (workers st ! t')}"
  using assms by (auto simp: awaited_def todo_def)

lemma sum_list_map_update:
  fixes h :: "'a \<Rightarrow> int"
  shows "t < length ws \<Longrightarrow> sum_list (map h (ws[t := w])) = sum_list (map h ws) - h (ws ! t) + h w"
proof (induction ws arbitrary: t)
  case Nil
  then show ?case by simp
next
  case (Cons a ws)
  then show ?case by (cases t) simp_all
qed

lemma marked_update: "v < length vis \<Longrightarrow> marked (vis[v := 1]) = insert v (marked vis)"
  by (auto simp: marked_def nth_list_update)

lemma neighbours_bound:
  assumes "wf_graph g" "F \<subseteq> {..<n_nodes g}"
  shows "neighbours g F \<subseteq> {..<n_nodes g}"
  using assms wf_graph_adj by (fastforce simp: neighbours_def)

lemma worker_step_idle:
  "length (workers st) \<le> t \<or> pending (workers st ! t) = [] \<Longrightarrow> worker_step g sv t st = st"
  by (auto simp: worker_step_def Let_def)

lemma worker_step_Examine:
  assumes "t < length (workers st)" "pending (workers st ! t) = Examine u # r" "u < length (nodes g)"
  shows "worker_step g sv t st =
         put_worker t ((workers st ! t)\<lparr>pending := map Check (adj (nodes g ! u)) @ r,
            partial_occurrences := partial_occurrences (workers st ! t) + matches g sv u,
            examined := examined (workers st ! t) @ [u]\<rparr>) st"
  using assms by (simp add: worker_step_def Let_def matches_def)

lemma worker_step_Check_new:
  assumes "t < length (workers st)" "pending (workers st ! t) = Check v # r"
    "v < length (visited st)" "visited st ! v = 0"
  shows "worker_step g sv t st = put_worker t ((workers st ! t)\<lparr>pending := Mark v # r\<rparr>) st"
  using assms by (simp add: worker_step_def Let_def)

lemma worker_step_Check_old:
  assumes "t < length (workers st)" "pending (workers st ! t) = Check v # r"
    "v < length (visited st)" "visited st ! v \<noteq> 0"
  shows "worker_step g sv t st = put_worker t ((workers st ! t)\<lparr>pending := r\<rparr>) st"
  using assms by (simp add: worker_step_def Let_def)

lemma worker_step_Mark:
  assumes "t < length (workers st)" "pending (workers st ! t) = Mark v # r"
  shows "worker_step g sv t st =
         (put_worker t ((workers st ! t)\<lparr>pending := r,
            partial_new_frontier := partial_new_frontier (workers st ! t) @ [v]\<rparr>) st)
         \<lparr>visited := (visited st)[v := 1]\<rparr>"
  using assms by (simp add: worker_step_def Let_def)

lemma handled_update_same:
  "t < length ws \<Longrightarrow> handled w = handled (ws ! t) \<Longrightarrow>
   (map handled ws)[t := handled w] = map handled ws"
  by (simp add: list_update_same_conv)

lemma no_examine_in_checks: "concat (map examine_target (map Check vs)) = []"
  by (induction vs) simp_all

lemma round_inv_put:
  assumes inv: "round_inv g sv F V0 c H st" and t: "t < length (workers st)"
    and buf: "partial_new_frontier w = partial_new_frontier (workers st ! t)"
    and ok: "\<forall>a \<in> set (pending w). action_ok g F V0 a"
    and cov: "todo g (workers st ! t) \<inter> (neighbours g F - V0) \<subseteq> todo g w \<union> buffered st"
    and bal: "balance g sv w = balance g sv (workers st ! t)"
    and hd: "handled w = handled (workers st ! t)"
  shows "round_inv g sv F V0 c H (put_worker t w st)"
proof -
  note I = inv [unfolded round_inv_def]
  have b: "buffered (put_worker t w st) = buffered st" using buffered_put_same [OF t buf] .
  have 5: "\<forall>t' < length (workers (put_worker t w st)).
             \<forall>a \<in> set (pending (workers (put_worker t w st) ! t')). action_ok g F V0 a"
    using I ok t by (auto simp: nth_list_update)
  have 6: "neighbours g F - V0 \<subseteq> buffered (put_worker t w st) \<union> awaited g (put_worker t w st)"
  proof
    fix v assume v: "v \<in> neighbours g F - V0"
    then have "v \<in> buffered st \<union> awaited g st" using I by blast
    then show "v \<in> buffered (put_worker t w st) \<union> awaited g (put_worker t w st)"
      unfolding b awaited_put [OF t] using awaited_split [OF t, of g] cov v by blast
  qed
  have 7: "sum_list (map (balance g sv) (workers (put_worker t w st))) = c"
    using I bal by (simp add: sum_list_map_update [OF t])
  have "map handled ((workers st)[t := w]) = (map handled (workers st))[t := handled w]"
    by (rule map_update)
  also have "\<dots> = map handled (workers st)" by (rule handled_update_same [OF t hd])
  finally have 8: "map handled (workers (put_worker t w st)) = H" using I by simp
  show ?thesis unfolding round_inv_def using I b 5 6 7 8 by simp
qed

lemma worker_step_inv:
  assumes wf: "wf_graph g" and F: "F \<subseteq> {..<n_nodes g}" and inv: "round_inv g sv F V0 c H st"
  shows "round_inv g sv F V0 c H (worker_step g sv t st)"
proof (cases "length (workers st) \<le> t \<or> pending (workers st ! t) = []")
  case True
  then show ?thesis using inv by (simp add: worker_step_idle)
next
  case False
  then have t: "t < length (workers st)" and ne: "pending (workers st ! t) \<noteq> []" by auto
  note I = inv [unfolded round_inv_def]
  let ?w = "workers st ! t"
  obtain a r where p: "pending ?w = a # r" using ne by (cases "pending ?w") auto
  have oks: "\<forall>a \<in> set (pending ?w). action_ok g F V0 a" using I t by blast
  have nodes: "length (nodes g) = n_nodes g" using wf by (simp add: wf_graph_def)
  show ?thesis
  proof (cases a)
    case (Examine u)
    have u: "u \<in> F" using oks p Examine by simp
    then have ul: "u < length (nodes g)" using F nodes by auto
    let ?w' = "?w\<lparr>pending := map Check (adj (nodes g ! u)) @ r,
                 partial_occurrences := partial_occurrences ?w + matches g sv u,
                 examined := examined ?w @ [u]\<rparr>"
    have st: "worker_step g sv t st = put_worker t ?w' st"
      using worker_step_Examine [OF t _ ul] p Examine by simp
    have ok: "\<forall>a \<in> set (pending ?w'). action_ok g F V0 a"
      using oks p Examine u by (auto simp: neighbours_def)
    have cov: "todo g ?w \<inter> (neighbours g F - V0) \<subseteq> todo g ?w' \<union> buffered st"
      using p Examine by (auto simp: todo_def)
    have "sum_list (map (owed g sv) (map Check (adj (nodes g ! u)))) = 0"
      by (induction "adj (nodes g ! u)") (simp_all add: comp_def)
    then have bal: "balance g sv ?w' = balance g sv ?w"
      using p Examine by (simp add: balance_def)
    have hd: "handled ?w' = handled ?w"
      using p Examine by (simp add: handled_def no_examine_in_checks)
    show ?thesis unfolding st by (rule round_inv_put [OF inv t _ ok cov bal hd]) simp
  next
    case (Check v)
    have v: "v \<in> neighbours g F" using oks p Check by simp
    then have vl: "v < length (visited st)" using neighbours_bound [OF wf F] I by auto
    show ?thesis
    proof (cases "visited st ! v = 0")
      case True
      let ?w' = "?w\<lparr>pending := Mark v # r\<rparr>"
      have st: "worker_step g sv t st = put_worker t ?w' st"
        using worker_step_Check_new [OF t _ vl True] p Check by simp
      have "v \<notin> marked (visited st)" using True by (simp add: marked_def)
      then have "v \<notin> V0" using I by blast
      then have ok: "\<forall>a \<in> set (pending ?w'). action_ok g F V0 a"
        using oks p Check v by auto
      have cov: "todo g ?w \<inter> (neighbours g F - V0) \<subseteq> todo g ?w' \<union> buffered st"
        using p Check by (auto simp: todo_def)
      have bal: "balance g sv ?w' = balance g sv ?w"
        using p Check by (simp add: balance_def)
      have hd: "handled ?w' = handled ?w" using p Check by (simp add: handled_def)
      show ?thesis unfolding st by (rule round_inv_put [OF inv t _ ok cov bal hd]) simp
    next
      case False
      let ?w' = "?w\<lparr>pending := r\<rparr>"
      have st: "worker_step g sv t st = put_worker t ?w' st"
        using worker_step_Check_old [OF t _ vl False] p Check by simp
      have "v \<in> marked (visited st)" using False vl by (simp add: marked_def)
      then have vb: "v \<in> V0 \<or> v \<in> buffered st" using I by blast
      have ok: "\<forall>a \<in> set (pending ?w'). action_ok g F V0 a"
        using oks p Check by auto
      have cov: "todo g ?w \<inter> (neighbours g F - V0) \<subseteq> todo g ?w' \<union> buffered st"
        using p Check vb by (auto simp: todo_def)
      have bal: "balance g sv ?w' = balance g sv ?w"
        using p Check by (simp add: balance_def)
      have hd: "handled ?w' = handled ?w" using p Check by (simp add: handled_def)
      show ?thesis unfolding st by (rule round_inv_put [OF inv t _ ok cov bal hd]) simp
    qed
  next
    case (Mark v)
    have v: "v \<in> neighbours g F" "v \<notin> V0" using oks p Mark by simp_all
    then have vl: "v < length (visited st)" using neighbours_bound [OF wf F] I by auto
    let ?w' = "?w\<lparr>pending := r, partial_new_frontier := partial_new_frontier ?w @ [v]\<rparr>"
    let ?st' = "put_worker t ?w' st"
    have st: "worker_step g sv t st = ?st'\<lparr>visited := (visited st)[v := 1]\<rparr>"
      using worker_step_Mark [OF t] p Mark by simp
    have b: "buffered ?st' = insert v (buffered st)"
      by (rule buffered_put_snoc [OF t]) simp
    have 3: "marked ((visited st)[v := 1]) = V0 \<union> buffered ?st'"
      using I b by (simp add: marked_update [OF vl])
    have 4: "buffered ?st' \<subseteq> neighbours g F - V0" using I b v by simp
    have 5: "\<forall>t' < length (workers ?st'). \<forall>a \<in> set (pending (workers ?st' ! t')). action_ok g F V0 a"
      using I oks p Mark t by (auto simp: nth_list_update)
    have 6: "neighbours g F - V0 \<subseteq> buffered ?st' \<union> awaited g ?st'"
    proof
      fix x assume x: "x \<in> neighbours g F - V0"
      then have "x \<in> buffered st \<union> awaited g st" using I by blast
      moreover have "todo g ?w \<subseteq> insert v (todo g ?w')" using p Mark
        by (auto simp: todo_def)
      ultimately show "x \<in> buffered ?st' \<union> awaited g ?st'"
        unfolding b awaited_put [OF t] using awaited_split [OF t, of g] by blast
    qed
    have bal: "balance g sv ?w' = balance g sv ?w" using p Mark by (simp add: balance_def)
    have 7: "sum_list (map (balance g sv) (workers ?st')) = c"
      using I bal by (simp add: sum_list_map_update [OF t])
    have hd: "handled ?w' = handled ?w" using p Mark by (simp add: handled_def)
    have "map handled ((workers st)[t := ?w']) = (map handled (workers st))[t := handled ?w']"
      by (rule map_update)
    also have "\<dots> = map handled (workers st)" by (rule handled_update_same [OF t hd])
    finally have 8: "map handled (workers ?st') = H" using I by simp
    show ?thesis unfolding st round_inv_def using I 3 4 5 6 7 8 by simp
  qed
qed

lemma worker_step_frame:
  "length (workers (worker_step g sv t st)) = length (workers st)"
  "curr_frontier (worker_step g sv t st) = curr_frontier st"
  "rounds (worker_step g sv t st) = rounds st"
  "length (visited (worker_step g sv t st)) = length (visited st)"
  by (auto simp: worker_step_def Let_def split: list.splits action.splits)

lemma worker_step_other:
  "t' \<noteq> t \<Longrightarrow> workers (worker_step g sv t st) ! t' = workers st ! t'"
  by (auto simp: worker_step_def Let_def split: list.splits action.splits)

lemma fold_worker_step_inv:
  assumes "wf_graph g" "F \<subseteq> {..<n_nodes g}"
  shows "round_inv g sv F V0 c H st \<Longrightarrow> round_inv g sv F V0 c H (fold (worker_step g sv) sched st)"
  by (induction sched arbitrary: st) (simp_all add: worker_step_inv [OF assms])

lemma fold_worker_step_frame:
  "length (workers (fold (worker_step g sv) sched st)) = length (workers st)"
  "curr_frontier (fold (worker_step g sv) sched st) = curr_frontier st"
  "rounds (fold (worker_step g sv) sched st) = rounds st"
  by (induction sched arbitrary: st) (simp_all add: worker_step_frame)

lemma run_worker_inv:
  "wf_graph g \<Longrightarrow> F \<subseteq> {..<n_nodes g} \<Longrightarrow> round_inv g sv F V0 c H st \<Longrightarrow>
   round_inv g sv F V0 c H (run_worker g sv t st)"
proof (induction g sv t st rule: run_worker.induct)
  case (1 g sv t st)
  show ?case
  proof (cases "t < length (workers st) \<and> pending (workers st ! t) \<noteq> []")
    case True
    have eq: "run_worker g sv t st = run_worker g sv t (worker_step g sv t st)"
      using True by (subst run_worker.simps) simp
    have "round_inv g sv F V0 c H (worker_step g sv t st)"
      using worker_step_inv "1.prems" by blast
    then show ?thesis unfolding eq using "1.IH" [OF True] "1.prems" by blast
  next
    case False
    then have "run_worker g sv t st = st" by (subst run_worker.simps) auto
    then show ?thesis using 1 by simp
  qed
qed

lemma run_worker_frame:
  "length (workers (run_worker g sv t st)) = length (workers st) \<and>
   curr_frontier (run_worker g sv t st) = curr_frontier st \<and>
   rounds (run_worker g sv t st) = rounds st \<and>
   (\<forall>t'. t' \<noteq> t \<longrightarrow> workers (run_worker g sv t st) ! t' = workers st ! t')"
proof (induction g sv t st rule: run_worker.induct)
  case (1 g sv t st)
  show ?case
  proof (cases "t < length (workers st) \<and> pending (workers st ! t) \<noteq> []")
    case True
    then have "run_worker g sv t st = run_worker g sv t (worker_step g sv t st)"
      by (subst run_worker.simps) simp
    then show ?thesis using 1 True by (simp add: worker_step_frame worker_step_other)
  next
    case False
    then have "run_worker g sv t st = st" by (subst run_worker.simps) auto
    then show ?thesis by simp
  qed
qed

lemma run_worker_done:
  "t < length (workers st) \<Longrightarrow> pending (workers (run_worker g sv t st) ! t) = []"
proof (induction g sv t st rule: run_worker.induct)
  case (1 g sv t st)
  show ?case
  proof (cases "pending (workers st ! t) \<noteq> []")
    case True
    then have "run_worker g sv t st = run_worker g sv t (worker_step g sv t st)"
      using 1(2) by (subst run_worker.simps) simp
    then show ?thesis using 1 True by (simp add: worker_step_frame)
  next
    case False
    then have "run_worker g sv t st = st" by (subst run_worker.simps) auto
    then show ?thesis using False by simp
  qed
qed

lemma drain_all:
  "k \<le> length (workers st) \<Longrightarrow>
   (\<forall>t < k. pending (workers (fold (run_worker g sv) [0..<k] st) ! t) = []) \<and>
   length (workers (fold (run_worker g sv) [0..<k] st)) = length (workers st) \<and>
   curr_frontier (fold (run_worker g sv) [0..<k] st) = curr_frontier st \<and>
   rounds (fold (run_worker g sv) [0..<k] st) = rounds st"
proof (induction k)
  case 0
  then show ?case by simp
next
  case (Suc k)
  let ?st = "fold (run_worker g sv) [0..<k] st"
  have ih: "\<forall>t < k. pending (workers ?st ! t) = []" "length (workers ?st) = length (workers st)"
    "curr_frontier ?st = curr_frontier st" "rounds ?st = rounds st"
    using Suc by simp_all
  have f: "fold (run_worker g sv) [0..<Suc k] st = run_worker g sv k ?st" by simp
  have k: "k < length (workers ?st)" using Suc.prems ih(2) by simp
  have "pending (workers (run_worker g sv k ?st) ! t) = []" if "t < Suc k" for t
  proof (cases "t = k")
    case True
    then show ?thesis using run_worker_done [OF k] by simp
  next
    case False
    then have "t < k" using that by simp
    then show ?thesis using run_worker_frame [of g sv k ?st] False ih(1) by simp
  qed
  then show ?case unfolding f using run_worker_frame [of g sv k ?st] ih by simp
qed

lemma drain_inv:
  assumes "wf_graph g" "F \<subseteq> {..<n_nodes g}"
  shows "round_inv g sv F V0 c H st \<Longrightarrow> round_inv g sv F V0 c H (fold (run_worker g sv) ts st)"
  using assms by (induction ts arbitrary: st) (simp_all add: run_worker_inv)

lemma run_round_post:
  fixes sched :: "nat list"
  assumes wf: "wf_graph g" and F: "F \<subseteq> {..<n_nodes g}" and inv: "round_inv g sv F V0 c H st"
  defines "st' \<equiv> run_round g sv sched st"
  shows "buffered st' = neighbours g F - V0"
    and "marked (visited st') = V0 \<union> (neighbours g F - V0)"
    and "total_occurrences st' = c"
    and "\<not> fault st'"
    and "length (visited st') = n_nodes g"
    and "length (workers st') = length (workers st)"
    and "curr_frontier st' = curr_frontier st"
    and "rounds st' = rounds st"
    and "\<forall>t < length (workers st'). pending (workers st' ! t) = []"
    and "map (\<lambda>w. mset (examined w)) (workers st') = H"
proof -
  let ?s1 = "fold (worker_step g sv) sched st"
  have st': "st' = fold (run_worker g sv) [0..<length (workers ?s1)] ?s1"
    by (simp add: st'_def run_round_def Let_def)
  have inv': "round_inv g sv F V0 c H st'"
    unfolding st' by (intro drain_inv [OF wf F] fold_worker_step_inv [OF wf F] inv)
  note I = inv' [unfolded round_inv_def]
  have d: "\<forall>t < length (workers ?s1). pending (workers st' ! t) = []"
    "length (workers st') = length (workers ?s1)"
    "curr_frontier st' = curr_frontier ?s1" "rounds st' = rounds ?s1"
    unfolding st' using drain_all [of "length (workers ?s1)" ?s1 g sv] by simp_all
  show len: "length (workers st') = length (workers st)"
    using d(2) by (simp add: fold_worker_step_frame)
  show "curr_frontier st' = curr_frontier st" using d(3) by (simp add: fold_worker_step_frame)
  show "rounds st' = rounds st" using d(4) by (simp add: fold_worker_step_frame)
  show empty: "\<forall>t < length (workers st'). pending (workers st' ! t) = []" using d(1,2)
    by simp
  have "awaited g st' = {}" using empty by (auto simp: awaited_def)
  then show b: "buffered st' = neighbours g F - V0" using I by auto
  show "marked (visited st') = V0 \<union> (neighbours g F - V0)" using I b by simp
  show "\<not> fault st'" "length (visited st') = n_nodes g" using I by simp_all
  have "map (\<lambda>w. mset (examined w)) (workers st') = map handled (workers st')"
    using empty by (intro nth_equalityI) (simp_all add: handled_def)
  then show "map (\<lambda>w. mset (examined w)) (workers st') = H" using I by simp
  have "map (balance g sv) (workers st') = map partial_occurrences (workers st')"
    using empty by (intro nth_equalityI) (simp_all add: balance_def)
  then have "sum_list (map (balance g sv) (workers st')) =
             sum_list (map partial_occurrences (workers st'))"
    by (rule arg_cong)
  then show "total_occurrences st' = c" using I unfolding total_occurrences_def by linarith
qed

lemma assign_work_frame:
  "visited (assign_work idx st) = visited st"
  "fault (assign_work idx st) = fault st"
  "curr_frontier (assign_work idx st) = curr_frontier st"
  "rounds (assign_work idx st) = rounds st"
  "length (workers (assign_work idx st)) = length (workers st)"
  by (simp_all add: assign_work_def)

lemma assign_work_nth:
  "t < length (workers st) \<Longrightarrow>
   workers (assign_work idx st) ! t =
   (workers st ! t)\<lparr>pending := map (\<lambda>j. Examine (curr_frontier st ! j))
       (idx t (length (workers st)) (length (curr_frontier st)))\<rparr>"
  by (simp add: assign_work_def nth_enumerate_eq)

lemma valid_partition_sets:
  assumes "valid_partition idx" "0 < W"
  shows "(\<Union>t \<in> {0..<W}. set (idx t W L)) = {0..<L}"
proof -
  have "set (concat (map (\<lambda>t. idx t W L) [0..<W])) = set [0..<L]"
    using assms unfolding valid_partition_def by (metis set_mset_mset)
  then show ?thesis by simp
qed

lemma sum_list_concat_map:
  fixes m :: "nat \<Rightarrow> int"
  shows "sum_list (map (\<lambda>t. sum_list (map m (f t))) ts) = sum_list (map m (concat (map f ts)))"
  by (induction ts) simp_all

lemma valid_partition_sum:
  fixes m :: "nat \<Rightarrow> int"
  assumes "valid_partition idx" "0 < W"
  shows "sum_list (map (\<lambda>t. sum_list (map m (idx t W L))) [0..<W]) = sum_list (map m [0..<L])"
proof -
  have "mset (concat (map (\<lambda>t. idx t W L) [0..<W])) = mset [0..<L]"
    using assms unfolding valid_partition_def by blast
  then have "mset (map m (concat (map (\<lambda>t. idx t W L) [0..<W]))) = mset (map m [0..<L])"
    by (metis mset_map)
  then have "sum_list (map m (concat (map (\<lambda>t. idx t W L) [0..<W]))) = sum_list (map m [0..<L])"
    by (metis sum_mset_sum_list)
  then show ?thesis by (simp add: sum_list_concat_map)
qed

lemma examined_once:
  assumes "valid_partition idx" "0 < W"
  shows "mset (concat (map (\<lambda>t. map (\<lambda>j. F ! j) (idx t W (length F))) [0..<W])) = mset F"
proof -
  have "concat (map (\<lambda>t. map (\<lambda>j. F ! j) (idx t W (length F))) [0..<W]) =
        map (\<lambda>j. F ! j) (concat (map (\<lambda>t. idx t W (length F)) [0..<W]))"
    by (simp add: map_concat comp_def)
  moreover have "mset (map (\<lambda>j. F ! j) (concat (map (\<lambda>t. idx t W (length F)) [0..<W]))) =
                 mset (map (\<lambda>j. F ! j) [0..<length F])"
    using assms unfolding valid_partition_def by (metis mset_map)
  ultimately show ?thesis by (simp add: map_nth)
qed

lemma examine_targets_map:
  "concat (map (examine_target \<circ> (\<lambda>j. Examine (f j))) js) = map f js"
  by (induction js) simp_all

lemma assign_work_inv:
  assumes wf: "wf_graph g" and vp: "valid_partition idx" and q: "quiescent g st"
  shows "round_inv g sv (set (curr_frontier st)) (marked (visited st))
           (total_occurrences st + sum_list (map (matches g sv) (curr_frontier st)))
           (map (\<lambda>t. mset (examined (workers st ! t)) +
                     mset (map (\<lambda>j. curr_frontier st ! j)
                            (idx t (length (workers st)) (length (curr_frontier st)))))
              [0..<length (workers st)])
           (assign_work idx st)"
proof -
  let ?F = "curr_frontier st" and ?ws = "workers st" and ?st' = "assign_work idx st"
  let ?W = "length ?ws" and ?L = "length ?F"
  let ?P = "\<lambda>t. map (\<lambda>j. Examine (?F ! j)) (idx t ?W ?L)"
  note Q = q [unfolded quiescent_def]
  have W: "0 < ?W" using Q by simp
  have nth: "\<And>t. t < ?W \<Longrightarrow> workers ?st' ! t = (?ws ! t)\<lparr>pending := ?P t\<rparr>"
    by (rule assign_work_nth)
  have len: "length (workers ?st') = ?W" by (simp add: assign_work_frame)
  have part: "(\<Union>t \<in> {0..<?W}. set (idx t ?W ?L)) = {0..<?L}"
    by (rule valid_partition_sets [OF vp W])
  have quiet: "\<And>t. t < ?W \<Longrightarrow> partial_new_frontier (?ws ! t) = []"
    using Q by (simp add: nth_mem)
  have b: "buffered ?st' = {}"
    using quiet by (auto simp: buffered_def len nth)
  have 5: "\<forall>t < length (workers ?st'). \<forall>a \<in> set (pending (workers ?st' ! t)).
             action_ok g (set ?F) (marked (visited st)) a"
  proof (intro allI impI ballI)
    fix t a assume t: "t < length (workers ?st')" and a: "a \<in> set (pending (workers ?st' ! t))"
    then obtain j where j: "j \<in> set (idx t ?W ?L)" "a = Examine (?F ! j)"
      using nth [of t] len by auto
    then have "j < ?L" using part t len by auto
    then show "action_ok g (set ?F) (marked (visited st)) a" using j by simp
  qed
  have 6: "neighbours g (set ?F) - marked (visited st) \<subseteq> buffered ?st' \<union> awaited g ?st'"
  proof
    fix v assume "v \<in> neighbours g (set ?F) - marked (visited st)"
    then obtain u where u: "u \<in> set ?F" "v \<in> set (adj (nodes g ! u))"
      by (auto simp: neighbours_def)
    then obtain j where j: "j < ?L" "?F ! j = u" by (auto simp: in_set_conv_nth)
    then have "j \<in> (\<Union>t \<in> {0..<?W}. set (idx t ?W ?L))" unfolding part by simp
    then obtain t where t: "t < ?W" "j \<in> set (idx t ?W ?L)" by auto
    then have "Examine u \<in> set (pending (workers ?st' ! t))" using nth [OF t(1)] j by auto
    then have "v \<in> awaited g ?st'"
      using t(1) u(2) len
        unfolding awaited_def by (auto intro!: exI [of _ t] bexI [of _ "Examine u"])
    then show "v \<in> buffered ?st' \<union> awaited g ?st'" by simp
  qed
  have 7: "sum_list (map (balance g sv) (workers ?st')) =
           total_occurrences st + sum_list (map (matches g sv) ?F)"
  proof -
    let ?m = "\<lambda>j. matches g sv (?F ! j)"
    have ws': "workers ?st' = map (\<lambda>t. (?ws ! t)\<lparr>pending := ?P t\<rparr>) [0..<?W]"
      by (rule nth_equalityI) (simp_all add: len nth)
    have "sum_list (map (balance g sv) (workers ?st')) =
          sum_list (map (\<lambda>t. partial_occurrences (?ws ! t) + sum_list (map ?m (idx t ?W ?L))) [0..<?W])"
      unfolding ws' by (simp add: balance_def comp_def)
    also have "\<dots> = sum_list (map (\<lambda>t. partial_occurrences (?ws ! t)) [0..<?W]) +
                     sum_list (map (\<lambda>t. sum_list (map ?m (idx t ?W ?L))) [0..<?W])"
      by (simp add: sum_list_addf)
    also have "map (\<lambda>t. partial_occurrences (?ws ! t)) [0..<?W] = map partial_occurrences ?ws"
      by (rule nth_equalityI) simp_all
    also have "sum_list (map (\<lambda>t. sum_list (map ?m (idx t ?W ?L))) [0..<?W]) = sum_list (map ?m [0..<?L])"
      by (rule valid_partition_sum [OF vp W])
    also have "map ?m [0..<?L] = map (matches g sv) ?F"
      by (rule nth_equalityI) simp_all
    finally show ?thesis by (simp add: total_occurrences_def)
  qed
  have 8: "map handled (workers ?st') =
           map (\<lambda>t. mset (examined (?ws ! t)) + mset (map (\<lambda>j. ?F ! j) (idx t ?W ?L))) [0..<?W]"
    by (rule nth_equalityI) (simp_all add: len nth handled_def examine_targets_map)
  show ?thesis
    unfolding round_inv_def using Q b 5 6 7 8 by (simp add: assign_work_frame)
qed

lemma set_concat_buffers:
  "(\<Union>w \<in> set (workers st). set (partial_new_frontier w)) = buffered st"
proof (rule set_eqI)
  fix v
  have "v \<in> (\<Union>w \<in> set (workers st). set (partial_new_frontier w)) \<longleftrightarrow>
        (\<exists>w \<in> set (workers st). v \<in> set (partial_new_frontier w))" by simp
  also have "\<dots> \<longleftrightarrow> (\<exists>t < length (workers st). v \<in> set (partial_new_frontier (workers st ! t)))"
    by (metis in_set_conv_nth)
  finally show "v \<in> (\<Union>w \<in> set (workers st). set (partial_new_frontier w)) \<longleftrightarrow> v \<in> buffered st"
    by (simp add: buffered_def)
qed

lemma merge_frame:
  "visited (merge arrange st) = visited st"
  "fault (merge arrange st) = fault st"
  "rounds (merge arrange st) = rounds st"
  "length (workers (merge arrange st)) = length (workers st)"
  "total_occurrences (merge arrange st) = total_occurrences st"
  by (simp_all add: merge_def total_occurrences_def comp_def)

lemma merge_frontier:
  assumes "\<forall>xs. mset (arrange xs) = mset xs"
  shows "set (curr_frontier (merge arrange st)) = buffered st"
    and "distinct (curr_frontier (merge arrange st))"
proof -
  let ?xs = "remdups (concat (map partial_new_frontier (workers st)))"
  have m: "mset (arrange ?xs) = mset ?xs" using assms by blast
  have "set (arrange ?xs) = set ?xs" using m by (metis set_mset_mset)
  then show "set (curr_frontier (merge arrange st)) = buffered st"
    by (simp add: merge_def set_concat_buffers)
  have "distinct (arrange ?xs) = distinct ?xs" using m by (metis mset_eq_imp_distinct_iff)
  then show "distinct (curr_frontier (merge arrange st))" by (simp add: merge_def)
qed

lemma merge_workers:
  "w \<in> set (workers (merge arrange st)) \<Longrightarrow>
   partial_new_frontier w = [] \<and> (\<exists>w' \<in> set (workers st). pending w = pending w')"
  by (auto simp: merge_def)

lemma bfs_round_spec:
  fixes schedule :: "nat \<Rightarrow> nat list" and sv :: int
  assumes wf: "wf_graph g" and vp: "valid_partition idx"
    and ar: "rearranges arrange" and q: "quiescent g st"
  defines "st' \<equiv> bfs_round idx arrange g sv schedule st"
  shows "quiescent g st'"
    and "set (curr_frontier st') = neighbours g (set (curr_frontier st)) - marked (visited st)"
    and "distinct (curr_frontier st')"
    and "marked (visited st') = marked (visited st) \<union> set (curr_frontier st')"
    and "total_occurrences st' =
         total_occurrences st + sum_list (map (matches g sv) (curr_frontier st))"
    and "rounds st' = Suc (rounds st)"
    and "length (workers st') = length (workers st)"
    and "mset (all_examined st') = mset (all_examined st) + mset (curr_frontier st)"
proof -
  let ?F = "set (curr_frontier st)" and ?V = "marked (visited st)"
  let ?c = "total_occurrences st + sum_list (map (matches g sv) (curr_frontier st))"
  let ?W = "length (workers st)" and ?L = "length (curr_frontier st)"
  let ?H = "map (\<lambda>t. mset (examined (workers st ! t)) +
                     mset (map (\<lambda>j. curr_frontier st ! j) (idx t ?W ?L))) [0..<?W]"
  let ?a = "assign_work idx st"
  let ?r = "run_round g sv (schedule (rounds st)) ?a"
  note Q = q [unfolded quiescent_def]
  have F: "?F \<subseteq> {..<n_nodes g}" using Q by simp
  have inv: "round_inv g sv ?F ?V ?c ?H ?a" by (rule assign_work_inv [OF wf vp q])
  note post = run_round_post [OF wf F inv, of "schedule (rounds st)"]
  let ?ar = "arrange (rounds st)"
  have ar': "\<forall>xs. mset (?ar xs) = mset xs" using ar by (simp add: rearranges_def)
  have st': "st' = (merge ?ar ?r)\<lparr>rounds := Suc (rounds st)\<rparr>"
    by (simp add: st'_def bfs_round_def)
  show fr: "set (curr_frontier st') = neighbours g ?F - ?V"
    unfolding st' using merge_frontier(1) [of ?ar ?r, OF ar'] post(1) by simp
  show "distinct (curr_frontier st')"
    unfolding st' using merge_frontier(2) [of ?ar ?r, OF ar'] by simp
  show "marked (visited st') = ?V \<union> set (curr_frontier st')"
    unfolding fr unfolding st' using post(2) by (simp add: merge_frame)
  show "total_occurrences st' = ?c"
    unfolding st' using post(3) merge_frame(5) [of ?ar ?r] by (simp add: total_occurrences_def)
  show "rounds st' = Suc (rounds st)" unfolding st' by simp
  show len: "length (workers st') = length (workers st)"
    unfolding st' using post(6) by (simp add: merge_frame assign_work_frame)
  have W: "0 < ?W" using Q by simp
  have e: "map (\<lambda>w. mset (examined w)) (workers st') = ?H"
    unfolding st' using post(10) by (simp add: merge_def comp_def)
  have "mset (all_examined st') = sum_list (map (\<lambda>w. mset (examined w)) (workers st'))"
    by (simp add: all_examined_def mset_concat comp_def)
  also have "\<dots> = sum_list ?H" by (simp only: e)
  also have "\<dots> = sum_list (map (\<lambda>t. mset (examined (workers st ! t))) [0..<?W]) +
      sum_list (map (\<lambda>t. mset (map (\<lambda>j. curr_frontier st ! j) (idx t ?W ?L))) [0..<?W])"
    by (simp add: sum_list_addf)
  also have "map (\<lambda>t. mset (examined (workers st ! t))) [0..<?W] =
             map (\<lambda>w. mset (examined w)) (workers st)"
    by (rule nth_equalityI) simp_all
  also have "sum_list (map (\<lambda>w. mset (examined w)) (workers st)) = mset (all_examined st)"
    by (simp add: all_examined_def mset_concat comp_def)
  also have "sum_list (map (\<lambda>t. mset (map (\<lambda>j. curr_frontier st ! j) (idx t ?W ?L))) [0..<?W]) =
             mset (concat (map (\<lambda>t. map (\<lambda>j. curr_frontier st ! j) (idx t ?W ?L)) [0..<?W]))"
    by (simp add: mset_concat comp_def)
  also have "\<dots> = mset (curr_frontier st)" by (rule examined_once [OF vp W])
  finally show "mset (all_examined st') = mset (all_examined st) + mset (curr_frontier st)" .
  have quiet: "\<forall>w \<in> set (workers st'). pending w = [] \<and> partial_new_frontier w = []"
  proof
    fix w assume "w \<in> set (workers st')"
    then have w: "w \<in> set (workers (merge ?ar ?r))" by (simp add: st')
    from merge_workers [OF w] obtain w' where w': "partial_new_frontier w = []"
      "w' \<in> set (workers ?r)" "pending w = pending w'" by blast
    then have "pending w' = []" using post(9) by (auto simp: in_set_conv_nth)
    then show "pending w = [] \<and> partial_new_frontier w = []" using w' by simp
  qed
  have "neighbours g ?F \<subseteq> {..<n_nodes g}" by (rule neighbours_bound [OF wf F])
  then have "set (curr_frontier st') \<subseteq> {..<n_nodes g}" using fr by blast
  moreover have "\<not> fault st'" "length (visited st') = n_nodes g"
    unfolding st' using post(4,5) by (simp_all add: merge_frame)
  ultimately show "quiescent g st'"
    unfolding quiescent_def using quiet len Q by simp
qed

section \<open>The two partition policies\<close>

lemma partition_mset:
  assumes dist: "\<And>t. t < W \<Longrightarrow> distinct (f t)"
    and disj: "\<And>t t'. t < W \<Longrightarrow> t' < W \<Longrightarrow> t \<noteq> t' \<Longrightarrow> set (f t) \<inter> set (f t') = {}"
    and cover: "(\<Union>t \<in> {0..<W}. set (f t)) = {0..<L}"
  shows "mset (concat (map f [0..<W])) = mset [0..<L]"
proof -
  have d: "k \<le> W \<Longrightarrow> distinct (concat (map f [0..<k]))" for k
  proof (induction k)
    case 0
    then show ?case by simp
  next
    case (Suc k)
    have "x \<notin> set (f t)" if "t < k" "x \<in> set (f k)" for t x
      using disj [of k t] that Suc.prems by auto
    then have "set (concat (map f [0..<k])) \<inter> set (f k) = {}" by auto
    then show ?case using Suc dist [of k] by simp
  qed
  have "set (concat (map f [0..<W])) = set [0..<L]" using cover by simp
  moreover have "distinct (concat (map f [0..<W]))" using d by simp
  ultimately show ?thesis
    using set_eq_iff_mset_eq_distinct [of "concat (map f [0..<W])" "[0..<L]"] distinct_upt
    by blast
qed

lemma valid_partition_chunks:
  assumes "0 < C"
  shows "valid_partition (worker_indices C)"
  unfolding valid_partition_def
proof (intro allI impI)
  fix W L :: nat assume W: "0 < W"
  show "mset (concat (map (\<lambda>t. worker_indices C t W L) [0..<W])) = mset [0..<L]"
    by (rule partition_mset [OF distinct_worker_indices [OF W assms]
          worker_indices_disjoint [OF W assms] worker_indices_cover [OF W assms]])
qed

lemma static_indices_large:
  assumes "W < L" "t < W"
  shows "static_indices t W L =
         [t * (L div W) ..< (if t = W - 1 then L else (t + 1) * (L div W))]"
proof -
  have W: "0 < W" using assms by simp
  have d: "0 < L div W" using assms W by (simp add: div_greater_zero_iff)
  have "(W - 1) * (L div W) < W * (L div W)" using d W by simp
  also have "\<dots> \<le> L" by simp
  finally have last: "(W - 1) * (L div W) \<noteq> L" by simp
  have "t * (L div W) \<noteq> (t + 1) * (L div W)" using d by simp
  then show ?thesis using assms last by (simp add: static_indices_def Let_def)
qed

lemma static_indices_small:
  assumes "L \<le> W" "t < W"
  shows "static_indices t W L = (if t < L then [t] else [])"
proof (cases "t < L")
  case False
  then show ?thesis by (simp add: static_indices_def)
next
  case True
  have "t = W - 1 \<longrightarrow> L = W" using True assms by auto
  moreover have "[W - Suc 0 ..< W] = [W - Suc 0]" using assms(2) by (cases W) simp_all
  ultimately show ?thesis using True assms by (auto simp: static_indices_def Let_def)
qed

lemma static_concat_large:
  assumes "W < L"
  shows "k < W \<Longrightarrow> concat (map (\<lambda>t. static_indices t W L) [0..<k]) = [0 ..< k * (L div W)]"
proof (induction k)
  case 0
  then show ?case by simp
next
  case (Suc k)
  have k: "k < W" "k \<noteq> W - 1" using Suc.prems by simp_all
  have "concat (map (\<lambda>t. static_indices t W L) [0..<Suc k]) =
        [0 ..< k * (L div W)] @ [k * (L div W) ..< (k + 1) * (L div W)]"
    using Suc static_indices_large [OF assms k(1)] k(2) by simp
  also have "\<dots> = [0 ..< (k + 1) * (L div W)]"
    using upt_add_eq_append [of 0 "k * (L div W)" "L div W"] by (simp add: add.commute)
  finally show ?case by simp
qed

lemma static_concat_small:
  assumes "L \<le> W"
  shows "k \<le> W \<Longrightarrow> concat (map (\<lambda>t. static_indices t W L) [0..<k]) = [0 ..< min k L]"
proof (induction k)
  case 0
  then show ?case by simp
next
  case (Suc k)
  have k: "k < W" using Suc.prems by simp
  show ?case
  proof (cases "k < L")
    case True
    then show ?thesis using Suc static_indices_small [OF assms k] by (simp add: min_def)
  next
    case False
    then show ?thesis using Suc static_indices_small [OF assms k] by (simp add: min_def)
  qed
qed

lemma static_concat:
  assumes "0 < W"
  shows "concat (map (\<lambda>t. static_indices t W L) [0..<W]) = [0..<L]"
proof (cases "W < L")
  case True
  obtain k where W: "W = Suc k" using assms by (cases W) auto
  have k: "k < W" "k = W - 1" using W by simp_all
  have "k * (L div W) \<le> W * (L div W)" using k by simp
  also have "\<dots> \<le> L" by simp
  finally have le: "k * (L div W) \<le> L" .
  have "concat (map (\<lambda>t. static_indices t W L) [0..<Suc k]) =
        [0 ..< k * (L div W)] @ [k * (L div W) ..< L]"
    using static_concat_large [OF True k(1)] static_indices_large [OF True k(1)] k(2) by simp
  also have "\<dots> = [0..<L]"
    using upt_add_eq_append [of 0 "k * (L div W)" "L - k * (L div W)"] le by simp
  finally show ?thesis using W by simp
next
  case False
  then have "L \<le> W" by simp
  then show ?thesis using static_concat_small [of L W W] by (simp add: min_def)
qed

lemma valid_partition_static: "valid_partition static_indices"
  unfolding valid_partition_def by (simp add: static_concat)

section \<open>The sequence of rounds\<close>

lemma marked_bound: "marked vis \<subseteq> {..<length vis}"
  by (auto simp: marked_def)

lemma finite_marked: "finite (marked vis)"
  using marked_bound finite_subset by blast

lemma card_marked_le: "card (marked vis) \<le> length vis"
  using subset_eq_atLeast0_lessThan_card [of "marked vis" "length vis"] marked_bound [of vis]
  by (simp add: lessThan_atLeast0)

lemma sum_matches_distinct:
  "distinct xs \<Longrightarrow>
   sum_list (map (matches g sv) xs) = int (card {u \<in> set xs. node_value (nodes g ! u) = sv})"
proof (induction xs)
  case Nil
  then show ?case by simp
next
  case (Cons x xs)
  let ?D = "{u \<in> set xs. node_value (nodes g ! u) = sv}"
  have fin: "finite ?D" by simp
  have nin: "x \<notin> ?D" using Cons.prems by simp
  have "{u \<in> set (x # xs). node_value (nodes g ! u) = sv} =
        (if node_value (nodes g ! x) = sv then insert x ?D else ?D)" by auto
  then show ?case
    using Cons card_insert_disjoint [OF fin nin] by (simp add: matches_def)
qed

lemma init_state_inv:
  assumes "s < n_nodes g" "0 < W"
  shows "bfs_inv g s sv (init_state g s W)"
proof -
  have m: "marked ((replicate (n_nodes g) 0)[s := 1]) = {s}"
    using assms(1) by (auto simp: marked_def nth_list_update)
  have q: "quiescent g (init_state g s W)"
    using assms by (simp add: quiescent_def init_state_def)
  show ?thesis
    unfolding bfs_inv_def using q m
    by (simp add: init_state_def reachable_start neighbours_def total_occurrences_def
          sum_list_replicate all_examined_def)
qed

lemma bfs_round_inv:
  fixes schedule :: "nat \<Rightarrow> nat list"
  assumes wf: "wf_graph g" and vp: "valid_partition idx"
    and ar: "rearranges arrange" and inv: "bfs_inv g s sv st"
  shows "bfs_inv g s sv (bfs_round idx arrange g sv schedule st)"
proof -
  let ?st' = "bfs_round idx arrange g sv schedule st"
  let ?F = "set (curr_frontier st)" and ?M = "marked (visited st)"
  let ?F' = "set (curr_frontier ?st')" and ?M' = "marked (visited ?st')"
  note I = inv [unfolded bfs_inv_def]
  have q: "quiescent g st" using I by simp
  note R = bfs_round_spec [OF wf vp ar q, where sv = sv and schedule = schedule]
  have F': "?F' = neighbours g ?F - ?M" and M': "?M' = ?M \<union> ?F'" using R(2,4) by simp_all
  have nodes: "length (nodes g) = n_nodes g" using wf by (simp add: wf_graph_def)
  have Fb: "?F \<subseteq> {..<length (nodes g)}" using q nodes by (simp add: quiescent_def)
  have reach: "?M' \<subseteq> reachable g s"
  proof -
    have "neighbours g ?F \<subseteq> reachable g s"
    proof
      fix v assume "v \<in> neighbours g ?F"
      then obtain u where u: "u \<in> ?F" "v \<in> set (adj (nodes g ! u))"
        by (auto simp: neighbours_def)
      then have "u \<in> reachable g s" "u < length (nodes g)" using I Fb by auto
      then show "v \<in> reachable g s" using reachable_step u(2) by blast
    qed
    then show ?thesis using I M' F' by blast
  qed
  have done_eq: "?M' - ?F' = ?M" using F' M' by blast
  have closed: "neighbours g (?M' - ?F') \<subseteq> ?M'"
  proof -
    have "neighbours g ?M \<subseteq> neighbours g (?M - ?F) \<union> neighbours g ?F"
      by (auto simp: neighbours_def)
    moreover have "neighbours g ?F \<subseteq> ?M'" using F' M' by blast
    ultimately show ?thesis unfolding done_eq using I M' by blast
  qed
  have count: "total_occurrences ?st' =
               int (card {u \<in> ?M' - ?F'. node_value (nodes g ! u) = sv})"
  proof -
    let ?A = "{u \<in> ?M - ?F. node_value (nodes g ! u) = sv}"
    let ?B = "{u \<in> ?F. node_value (nodes g ! u) = sv}"
    have "{u \<in> ?M. node_value (nodes g ! u) = sv} = ?A \<union> ?B" using I by blast
    moreover have "?A \<inter> ?B = {}" by blast
    moreover have "finite ?A" "finite ?B" using finite_marked [of "visited st"] by simp_all
    ultimately have "card {u \<in> ?M. node_value (nodes g ! u) = sv} = card ?A + card ?B"
      using card_Un_disjoint [of ?A ?B] by simp
    moreover have "sum_list (map (matches g sv) (curr_frontier st)) = int (card ?B)"
      using sum_matches_distinct I by blast
    ultimately show ?thesis unfolding done_eq using R(5) I by simp
  qed
  have ledger: "mset (all_examined ?st') = mset_set (?M' - ?F')"
  proof -
    have "mset (curr_frontier st) = mset_set ?F" using I by (simp add: mset_set_set)
    then have "mset (all_examined ?st') = mset_set (?M - ?F) + mset_set ?F"
      using R(8) I by simp
    also have "\<dots> = mset_set ((?M - ?F) \<union> ?F)"
      using finite_marked [of "visited st"] by (intro mset_set_Union [symmetric]) auto
    also have "(?M - ?F) \<union> ?F = ?M" using I by blast
    finally show ?thesis unfolding done_eq .
  qed
  show ?thesis
    unfolding bfs_inv_def using R(1,3) I M' reach closed count ledger by simp
qed

lemma bfs_trace_inv:
  assumes "wf_graph g" "valid_partition idx" "rearranges arrange"
    "s < n_nodes g" "0 < W"
  shows "bfs_inv g s sv (bfs_trace idx arrange g s sv W schedule k)"
proof (induction k)
  case 0
  then show ?case using init_state_inv [OF assms(4,5)] by simp
next
  case (Suc k)
  then show ?case using bfs_round_inv [OF assms(1-3)] by simp
qed

lemma bfs_trace_step:
  fixes schedule :: "nat \<Rightarrow> nat list" and sv :: int
  assumes "wf_graph g" "valid_partition idx" "rearranges arrange"
    "s < n_nodes g" "0 < W"
  defines "T \<equiv> bfs_trace idx arrange g s sv W schedule"
  shows "set (curr_frontier (T (Suc k))) =
           neighbours g (set (curr_frontier (T k))) - marked (visited (T k))"
    and "marked (visited (T (Suc k))) = marked (visited (T k)) \<union> set (curr_frontier (T (Suc k)))"
    and "distinct (curr_frontier (T k))"
    and "rounds (T k) = k"
    and "length (workers (T k)) = W"
    and "\<not> fault (T k)"
    and "length (visited (T k)) = n_nodes g"
    and "total_occurrences (T (Suc k)) =
           total_occurrences (T k) + sum_list (map (matches g sv) (curr_frontier (T k)))"
proof -
  have inv: "\<And>k. bfs_inv g s sv (T k)" unfolding T_def by (rule bfs_trace_inv [OF assms(1-5)])
  then have q: "\<And>k. quiescent g (T k)" by (simp add: bfs_inv_def)
  note R = bfs_round_spec [OF assms(1-3) q [of k], where sv = sv and schedule = schedule]
  show "set (curr_frontier (T (Suc k))) =
           neighbours g (set (curr_frontier (T k))) - marked (visited (T k))"
    using R(2) by (simp add: T_def)
  show "marked (visited (T (Suc k))) = marked (visited (T k)) \<union> set (curr_frontier (T (Suc k)))"
    using R(4) by (simp add: T_def)
  show "distinct (curr_frontier (T k))" using inv [of k] by (simp add: bfs_inv_def)
  show "\<not> fault (T k)" "length (visited (T k)) = n_nodes g"
    using q [of k] by (simp_all add: quiescent_def)
  show "total_occurrences (T (Suc k)) =
           total_occurrences (T k) + sum_list (map (matches g sv) (curr_frontier (T k)))"
    using R(5) by (simp add: T_def)
  show "rounds (T k) = k"
  proof (induction k)
    case 0
    then show ?case by (simp add: T_def init_state_def)
  next
    case (Suc k)
    then show ?case
      using bfs_round_spec(6) [OF assms(1-3) q [of k], where sv = sv and schedule = schedule]
      by (simp add: T_def)
  qed
  show "length (workers (T k)) = W"
  proof (induction k)
    case 0
    then show ?case by (simp add: T_def init_state_def)
  next
    case (Suc k)
    then show ?case
      using bfs_round_spec(7) [OF assms(1-3) q [of k], where sv = sv and schedule = schedule]
      by (simp add: T_def)
  qed
qed

lemma trace_marked_mono:
  fixes schedule :: "nat \<Rightarrow> nat list" and sv :: int
  assumes "wf_graph g" "valid_partition idx" "rearranges arrange"
    "s < n_nodes g" "0 < W"
  defines "T \<equiv> bfs_trace idx arrange g s sv W schedule"
  shows "j \<le> k \<Longrightarrow> marked (visited (T j)) \<subseteq> marked (visited (T k))"
proof (induction k)
  case 0
  then show ?case by simp
next
  case (Suc k)
  show ?case
  proof (cases "j = Suc k")
    case True
    then show ?thesis by simp
  next
    case False
    then have "marked (visited (T j)) \<subseteq> marked (visited (T k))" using Suc by simp
    then show ?thesis
      using bfs_trace_step(2) [OF assms(1-5), where sv = sv and schedule = schedule and k = k]
        unfolding T_def by blast
  qed
qed

lemma trace_frontier_marked:
  fixes schedule :: "nat \<Rightarrow> nat list" and sv :: int
  assumes "wf_graph g" "valid_partition idx" "rearranges arrange"
    "s < n_nodes g" "0 < W"
  defines "T \<equiv> bfs_trace idx arrange g s sv W schedule"
  shows "set (curr_frontier (T k)) \<subseteq> marked (visited (T k))"
  using bfs_trace_inv [OF assms(1-5), where sv = sv and schedule = schedule and k = k]
    unfolding T_def bfs_inv_def by blast

lemma trace_frontier_fresh:
  fixes schedule :: "nat \<Rightarrow> nat list" and sv :: int
  assumes "wf_graph g" "valid_partition idx" "rearranges arrange"
    "s < n_nodes g" "0 < W"
  defines "T \<equiv> bfs_trace idx arrange g s sv W schedule"
  shows "set (curr_frontier (T (Suc k))) \<inter> marked (visited (T k)) = {}"
  using bfs_trace_step(1) [OF assms(1-5), where sv = sv and schedule = schedule and k = k]
    unfolding T_def by blast

lemma trace_frontiers_disjoint:
  fixes schedule :: "nat \<Rightarrow> nat list" and sv :: int
  assumes "wf_graph g" "valid_partition idx" "rearranges arrange"
    "s < n_nodes g" "0 < W"
  defines "T \<equiv> bfs_trace idx arrange g s sv W schedule"
  shows "j < k \<Longrightarrow> set (curr_frontier (T j)) \<inter> set (curr_frontier (T k)) = {}"
proof -
  assume "j < k"
  then obtain k' where k: "k = Suc k'" "j \<le> k'" by (cases k) auto
  have "set (curr_frontier (T j)) \<subseteq> marked (visited (T j))"
    unfolding T_def by (rule trace_frontier_marked [OF assms(1-5)])
  also have "\<dots> \<subseteq> marked (visited (T k'))"
    unfolding T_def by (rule trace_marked_mono [OF assms(1-5) k(2)])
  finally show ?thesis
    using trace_frontier_fresh [OF assms(1-5), where sv = sv and schedule = schedule and k = k']
      unfolding T_def k(1) by blast
qed

lemma trace_card_growth:
  fixes schedule :: "nat \<Rightarrow> nat list" and sv :: int
  assumes "wf_graph g" "valid_partition idx" "rearranges arrange"
    "s < n_nodes g" "0 < W"
  defines "T \<equiv> bfs_trace idx arrange g s sv W schedule"
  shows "(\<forall>j \<le> k. curr_frontier (T j) \<noteq> []) \<Longrightarrow> Suc k \<le> card (marked (visited (T k)))"
proof (induction k)
  case 0
  have "s \<in> marked (visited (T 0))"
    using bfs_trace_inv [OF assms(1-5), where sv = sv and schedule = schedule and k = 0]
      unfolding T_def bfs_inv_def by blast
  then have "card (marked (visited (T 0))) \<noteq> 0" using finite_marked by auto
  then show ?case by simp
next
  case (Suc k)
  let ?M = "marked (visited (T k))" and ?F = "set (curr_frontier (T (Suc k)))"
  have ih: "Suc k \<le> card ?M" using Suc by simp
  have ne: "?F \<noteq> {}" using Suc.prems by simp
  have M': "marked (visited (T (Suc k))) = ?M \<union> ?F"
    using bfs_trace_step(2) [OF assms(1-5), where sv = sv and schedule = schedule and k = k]
      unfolding T_def by simp
  have disj: "?M \<inter> ?F = {}"
    using trace_frontier_fresh [OF assms(1-5), where sv = sv and schedule = schedule and k = k]
      unfolding T_def by blast
  have "card (?M \<union> ?F) = card ?M + card ?F"
    using card_Un_disjoint [OF finite_marked _ disj] by simp
  moreover have "0 < card ?F" using ne by (simp add: card_gt_0_iff)
  ultimately show ?case unfolding M' using ih by simp
qed

lemma trace_terminates:
  fixes schedule :: "nat \<Rightarrow> nat list" and sv :: int
  assumes "wf_graph g" "valid_partition idx" "rearranges arrange"
    "s < n_nodes g" "0 < W"
  defines "T \<equiv> bfs_trace idx arrange g s sv W schedule"
  shows "\<exists>K. 1 \<le> K \<and> K \<le> n_nodes g \<and> curr_frontier (T K) = [] \<and>
             (\<forall>j < K. curr_frontier (T j) \<noteq> [])"
proof -
  have ex: "\<exists>k \<le> n_nodes g. curr_frontier (T k) = []"
  proof (rule ccontr)
    assume "\<not> (\<exists>k \<le> n_nodes g. curr_frontier (T k) = [])"
    then have "\<forall>j \<le> n_nodes g. curr_frontier (T j) \<noteq> []" by blast
    then have "Suc (n_nodes g) \<le> card (marked (visited (T (n_nodes g))))"
      unfolding T_def by (rule trace_card_growth [OF assms(1-5)])
    moreover have "card (marked (visited (T (n_nodes g)))) \<le> n_nodes g"
      using card_marked_le [of "visited (T (n_nodes g))"]
        bfs_trace_step(7) [OF assms(1-5), where sv = sv and schedule = schedule and k = "n_nodes g"]
          unfolding T_def by simp
    ultimately show False by simp
  qed
  define K where "K = (LEAST k. curr_frontier (T k) = [])"
  obtain k0 where k0: "k0 \<le> n_nodes g" "curr_frontier (T k0) = []" using ex by blast
  have K1: "curr_frontier (T K) = []" unfolding K_def using k0(2) by (rule LeastI)
  have K2: "K \<le> n_nodes g" using Least_le [of "\<lambda>k. curr_frontier (T k) = []" k0] k0 K_def
    by simp
  have K3: "\<forall>j < K. curr_frontier (T j) \<noteq> []"
    unfolding K_def using not_less_Least by blast
  have "curr_frontier (T 0) \<noteq> []" by (simp add: T_def init_state_def)
  then have "K \<noteq> 0" using K1 by metis
  then show ?thesis using K1 K2 K3 by (intro exI [of _ K]) simp
qed

lemma trace_final_marked:
  fixes schedule :: "nat \<Rightarrow> nat list" and sv :: int
  assumes "wf_graph g" "valid_partition idx" "rearranges arrange"
    "s < n_nodes g" "0 < W"
  defines "T \<equiv> bfs_trace idx arrange g s sv W schedule"
  assumes K: "curr_frontier (T K) = []"
  shows "marked (visited (T K)) = reachable g s"
    and "total_occurrences (T K) = reachable_matches g s sv"
    and "mset (all_examined (T K)) = mset_set (reachable g s)"
proof -
  note I = bfs_trace_inv [OF assms(1-5), where sv = sv and schedule = schedule and k = K, unfolded bfs_inv_def, folded T_def]
  have len: "length (visited (T K)) = n_nodes g"
    using bfs_trace_step(7) [OF assms(1-5), where sv = sv and schedule = schedule and k = K]
      unfolding T_def by simp
  have nodes: "length (nodes g) = n_nodes g" using assms(1) by (simp add: wf_graph_def)
  have "neighbours g (marked (visited (T K))) \<subseteq> marked (visited (T K))" using I K by simp
  moreover have "marked (visited (T K)) \<subseteq> {..<length (nodes g)}"
    using marked_bound [of "visited (T K)"] len nodes by simp
  ultimately have "reachable g s \<subseteq> marked (visited (T K))"
    using I reachable_closed by blast
  then show M: "marked (visited (T K)) = reachable g s" using I by blast
  show "total_occurrences (T K) = reachable_matches g s sv"
    using I K M by (simp add: reachable_matches_def)
  show "mset (all_examined (T K)) = mset_set (reachable g s)"
    using I K M by simp
qed

text \<open>
  The rounds on their own reach an empty frontier after at most \<open>n\<close> rounds, and then
  the workers' counters add up to the number of reachable nodes with the search value.
\<close>

lemma run_summary:
  fixes schedule :: "nat \<Rightarrow> nat list" and sv :: int
  assumes "wf_graph g" "valid_partition idx" "rearranges arrange"
    "s < n_nodes g" "0 < W"
  defines "T \<equiv> bfs_trace idx arrange g s sv W schedule"
  shows "\<exists>K. 1 \<le> K \<and> K \<le> n_nodes g \<and> curr_frontier (T K) = [] \<and>
             (\<forall>j < K. curr_frontier (T j) \<noteq> []) \<and>
             marked (visited (T K)) = reachable g s \<and>
             total_occurrences (T K) = reachable_matches g s sv \<and>
             mset (all_examined (T K)) = mset_set (reachable g s)"
proof -
  obtain K where K: "1 \<le> K" "K \<le> n_nodes g" "curr_frontier (T K) = []"
    "\<forall>j < K. curr_frontier (T j) \<noteq> []"
    using trace_terminates [OF assms(1-5), where sv = sv and schedule = schedule]
      unfolding T_def by blast
  show ?thesis
    using K trace_final_marked [OF assms(1-5) K(3) [unfolded T_def], folded T_def]
    by (intro exI [of _ K]) simp
qed

section \<open>Monotone flags and determinism of the frontiers\<close>

lemma flags_grow_refl: "flags_grow vis vis"
  by (simp add: flags_grow_def)

lemma flags_grow_trans: "flags_grow a b \<Longrightarrow> flags_grow b c \<Longrightarrow> flags_grow a c"
  unfolding flags_grow_def by (metis)

lemma flags_grow_update: "flags_grow vis (vis[v := 1])"
  by (cases "v < length vis") (simp_all add: flags_grow_def nth_list_update)

lemma worker_step_grow: "flags_grow (visited st) (visited (worker_step g sv t st))"
  by (auto simp: worker_step_def Let_def flags_grow_refl flags_grow_update
           split: list.splits action.splits)

lemma fold_worker_step_grow:
  "flags_grow (visited st) (visited (fold (worker_step g sv) sched st))"
proof (induction sched arbitrary: st)
  case Nil
  then show ?case by (simp add: flags_grow_refl)
next
  case (Cons t sched)
  show ?case
    using flags_grow_trans [OF worker_step_grow Cons [of "worker_step g sv t st"]] by simp
qed

lemma run_worker_grow: "flags_grow (visited st) (visited (run_worker g sv t st))"
proof (induction g sv t st rule: run_worker.induct)
  case (1 g sv t st)
  show ?case
  proof (cases "t < length (workers st) \<and> pending (workers st ! t) \<noteq> []")
    case True
    have eq: "run_worker g sv t st = run_worker g sv t (worker_step g sv t st)"
      using True by (subst run_worker.simps) simp
    show ?thesis unfolding eq using flags_grow_trans [OF worker_step_grow "1.IH" [OF True]] .
  next
    case False
    then have "run_worker g sv t st = st" by (subst run_worker.simps) auto
    then show ?thesis by (simp add: flags_grow_refl)
  qed
qed

lemma drain_grow: "flags_grow (visited st) (visited (fold (run_worker g sv) ts st))"
proof (induction ts arbitrary: st)
  case Nil
  then show ?case by (simp add: flags_grow_refl)
next
  case (Cons t ts)
  show ?case
    using flags_grow_trans [OF run_worker_grow Cons [of "run_worker g sv t st"]] by simp
qed

lemma bfs_round_grow:
  "flags_grow (visited st) (visited (bfs_round idx arrange g sv schedule st))"
proof -
  let ?a = "assign_work idx st"
  let ?s1 = "fold (worker_step g sv) (schedule (rounds st)) ?a"
  have "flags_grow (visited ?a) (visited (run_round g sv (schedule (rounds st)) ?a))"
    unfolding run_round_def Let_def
    by (rule flags_grow_trans [OF fold_worker_step_grow drain_grow])
  then show ?thesis by (simp add: bfs_round_def merge_frame assign_work_frame)
qed

lemma flags_grow_keeps_one:
  "flags_grow vis vis' \<Longrightarrow> v < length vis \<Longrightarrow> vis ! v = 1 \<Longrightarrow> vis' ! v = 1"
  unfolding flags_grow_def by metis

lemma flags_grow_01: "flags_grow vis vis' \<Longrightarrow> flags01 vis \<Longrightarrow> flags01 vis'"
  unfolding flags_grow_def flags01_def by metis

lemma trace_flags01: "flags01 (visited (bfs_trace idx arrange g s sv W schedule k))"
proof (induction k)
  case 0
  show ?case
    by (cases "s < n_nodes g") (simp_all add: flags01_def init_state_def nth_list_update)
next
  case (Suc k)
  then show ?case using flags_grow_01 [OF bfs_round_grow] by simp
qed

lemma marked_flag_one: "flags01 vis \<Longrightarrow> v \<in> marked vis \<Longrightarrow> vis ! v = 1"
  unfolding flags01_def marked_def by auto

lemma unmarked_flag_zero: "v < length vis \<Longrightarrow> v \<notin> marked vis \<Longrightarrow> vis ! v = 0"
  unfolding marked_def by auto

lemma arrange_sort: "rearranges (\<lambda>r. sort)"
  by (simp add: rearranges_def)

lemma trace_marked_union:
  fixes schedule :: "nat \<Rightarrow> nat list" and sv :: int
  assumes "wf_graph g" "valid_partition idx" "rearranges arrange"
    "s < n_nodes g" "0 < W"
  defines "T \<equiv> bfs_trace idx arrange g s sv W schedule"
  shows "marked (visited (T k)) = (\<Union>j \<le> k. set (curr_frontier (T j)))"
proof (induction k)
  case 0
  have "marked ((replicate (n_nodes g) 0)[s := 1]) = {s}"
    using assms(4) by (auto simp: marked_def nth_list_update)
  then show ?case by (simp add: T_def init_state_def)
next
  case (Suc k)
  have "marked (visited (T (Suc k))) = marked (visited (T k)) \<union> set (curr_frontier (T (Suc k)))"
    using bfs_trace_step(2) [OF assms(1-5), where sv = sv and schedule = schedule and k = k]
      unfolding T_def by simp
  then show ?case using Suc by (auto simp: le_Suc_eq)
qed




section \<open>The claims about the rounds of the parallel search\<close>

lemma wf_G5: "wf_graph G5"
  by (simp add: wf_graph_def G5_def)


lemma wf_G1: "wf_graph G1"
  by (simp add: wf_graph_def G1_def)

lemma chunk_policy: "valid_partition (worker_indices CHUNK_SIZE)"
  by (rule valid_partition_chunks) (simp add: CHUNK_SIZE_def)

lemma parallel_run_summary:
  fixes schedule :: "nat \<Rightarrow> nat list" and sv :: int
  assumes "wf_graph g" "s < n_nodes g" "1 \<le> W"
  defines "T \<equiv> parallel_bfs_trace g s sv W schedule"
  shows "\<exists>K. 1 \<le> K \<and> K \<le> n_nodes g \<and> curr_frontier (T K) = [] \<and>
             (\<forall>j < K. curr_frontier (T j) \<noteq> []) \<and>
             marked (visited (T K)) = reachable g s \<and>
             total_occurrences (T K) = reachable_matches g s sv \<and>
             mset (all_examined (T K)) = mset_set (reachable g s)"
proof -
  have W: "0 < W" using assms(3) by simp
  have T: "T = bfs_trace (worker_indices CHUNK_SIZE) (\<lambda>r. sort) g s sv W schedule"
    unfolding T_def by (rule ext) (simp add: parallel_bfs_trace_def)
  show ?thesis
    unfolding T
    by (rule run_summary [OF assms(1) chunk_policy arrange_sort assms(2) W])
qed

lemma parallel_trace_facts:
  fixes schedule :: "nat \<Rightarrow> nat list" and sv :: int
  assumes "wf_graph g" "s < n_nodes g" "1 \<le> W"
  defines "T \<equiv> parallel_bfs_trace g s sv W schedule"
  shows "set (curr_frontier (T (Suc k))) =
           neighbours g (set (curr_frontier (T k))) - marked (visited (T k))"
    and "marked (visited (T (Suc k))) = marked (visited (T k)) \<union> set (curr_frontier (T (Suc k)))"
    and "distinct (curr_frontier (T k))"
    and "rounds (T k) = k"
    and "length (visited (T k)) = n_nodes g"
    and "set (curr_frontier (T k)) \<subseteq> marked (visited (T k))"
    and "flags01 (visited (T k))"
    and "flags_grow (visited (T k)) (visited (T (Suc k)))"
    and "j < k \<Longrightarrow> set (curr_frontier (T j)) \<inter> set (curr_frontier (T k)) = {}"
    and "marked (visited (T k)) = (\<Union>j \<le> k. set (curr_frontier (T j)))"
    and "total_occurrences (T (Suc k)) =
           total_occurrences (T k) + sum_list (map (matches g sv) (curr_frontier (T k)))"
proof -
  have W: "0 < W" using assms(3) by simp
  have T: "T = bfs_trace (worker_indices CHUNK_SIZE) (\<lambda>r. sort) g s sv W schedule"
    unfolding T_def by (rule ext) (simp add: parallel_bfs_trace_def)
  note S = bfs_trace_step [OF assms(1) chunk_policy arrange_sort assms(2) W, where sv = sv and schedule = schedule, folded T]
  show "set (curr_frontier (T (Suc k))) =
           neighbours g (set (curr_frontier (T k))) - marked (visited (T k))"
    by (rule S(1))
  show "marked (visited (T (Suc k))) = marked (visited (T k)) \<union> set (curr_frontier (T (Suc k)))"
    by (rule S(2))
  show "distinct (curr_frontier (T k))" by (rule S(3))
  show "rounds (T k) = k" by (rule S(4))
  show "length (visited (T k)) = n_nodes g" by (rule S(7))
  show "total_occurrences (T (Suc k)) =
           total_occurrences (T k) + sum_list (map (matches g sv) (curr_frontier (T k)))"
    by (rule S(8))
  show "set (curr_frontier (T k)) \<subseteq> marked (visited (T k))"
    unfolding T by (rule trace_frontier_marked [OF assms(1) chunk_policy arrange_sort assms(2) W])
  show "flags01 (visited (T k))" unfolding T by (rule trace_flags01)
  show "flags_grow (visited (T k)) (visited (T (Suc k)))"
    unfolding T by (simp add: bfs_round_grow)
  show "j < k \<Longrightarrow> set (curr_frontier (T j)) \<inter> set (curr_frontier (T k)) = {}"
   
      unfolding T by (rule trace_frontiers_disjoint [OF assms(1) chunk_policy arrange_sort assms(2) W])
  show "marked (visited (T k)) = (\<Union>j \<le> k. set (curr_frontier (T j)))"
    unfolding T by (rule trace_marked_union [OF assms(1) chunk_policy arrange_sort assms(2) W])
qed



text \<open>
  Claim C10. On a well-formed graph with a valid start node, at the start of every round
  of \<open>parallel_bfs\<close> every node of the current frontier has its visited flag equal to 1;
  no step of a worker and no round changes a flag from 1 to anything else; and the
  frontiers of two different rounds are disjoint.
\<close>

theorem frontier_visited_invariant:
  fixes schedule :: "nat \<Rightarrow> nat list" and search_value :: int
  assumes "wf_graph g" "start_node < n_nodes g" "1 \<le> n_workers"
  defines "T \<equiv> parallel_bfs_trace g start_node search_value n_workers schedule"
  shows "(\<forall>k. \<forall>u \<in> set (curr_frontier (T k)). visited (T k) ! u = 1)
       \<and> (\<forall>k v. v < n_nodes g \<longrightarrow> visited (T k) ! v = 1 \<longrightarrow> visited (T (Suc k)) ! v = 1)
       \<and> (\<forall>st t v. v < length (visited st) \<longrightarrow> visited st ! v = 1 \<longrightarrow>
             visited (worker_step g search_value t st) ! v = 1)
       \<and> (\<forall>j k. j \<noteq> k \<longrightarrow> set (curr_frontier (T j)) \<inter> set (curr_frontier (T k)) = {})"
proof -
  note F = parallel_trace_facts [OF assms(1-3), where sv = search_value and schedule = schedule, folded T_def]
  have a: "\<forall>k. \<forall>u \<in> set (curr_frontier (T k)). visited (T k) ! u = 1"
    using marked_flag_one [OF F(7)] F(6) by blast
  have b: "\<forall>k v. v < n_nodes g \<longrightarrow> visited (T k) ! v = 1 \<longrightarrow> visited (T (Suc k)) ! v = 1"
    using flags_grow_keeps_one [OF F(8)] F(5) by simp
  have c: "\<forall>st t v. v < length (visited st) \<longrightarrow> visited st ! v = 1 \<longrightarrow>
             visited (worker_step g search_value t st) ! v = 1"
    using flags_grow_keeps_one [OF worker_step_grow] by blast
  have d: "set (curr_frontier (T j)) \<inter> set (curr_frontier (T k)) = {}" if neq: "j \<noteq> k" for j k
  proof (cases "j < k")
    case True
    then show ?thesis by (rule F(9))
  next
    case False
    then have "k < j" using neq by simp
    then have "set (curr_frontier (T k)) \<inter> set (curr_frontier (T j)) = {}" by (rule F(9))
    then show ?thesis by (simp add: Int_commute)
  qed
  have d': "\<forall>j k. j \<noteq> k \<longrightarrow> set (curr_frontier (T j)) \<inter> set (curr_frontier (T k)) = {}"
    using d by (intro allI impI)
  show ?thesis by (rule conjI [OF a conjI [OF b conjI [OF c d']]])
qed

theorem frontier_visited_invariant_witness:
  "wf_graph G5 \<and> (0::nat) < n_nodes G5 \<and> (1::nat) \<le> 2
   \<and> curr_frontier (parallel_bfs_trace G5 0 7 2 sched_b 1) = [1, 2]
   \<and> visited (parallel_bfs_trace G5 0 7 2 sched_b 1) ! 1 = 1
   \<and> visited (parallel_bfs_trace G5 0 7 2 sched_b 2) ! 1 = 1
   \<and> set (curr_frontier (parallel_bfs_trace G5 0 7 2 sched_b 1)) \<inter>
       set (curr_frontier (parallel_bfs_trace G5 0 7 2 sched_b 2)) = {}"
proof -
  have st: "(0::nat) < n_nodes G5" by (simp add: G5_def)
  have w: "(1::nat) \<le> 2" by simp
  note th = frontier_visited_invariant [OF wf_G5 st w, of 7 sched_b]
  have e: "curr_frontier (parallel_bfs_trace G5 0 7 2 sched_b 1) = [1, 2]" by code_simp
  then have m: "1 \<in> set (curr_frontier (parallel_bfs_trace G5 0 7 2 sched_b 1))" by simp
  have v1: "visited (parallel_bfs_trace G5 0 7 2 sched_b 1) ! 1 = 1"
    using th [THEN conjunct1, rule_format, OF m] .
  have n: "(1::nat) < n_nodes G5" by (simp add: G5_def)
  have v2: "visited (parallel_bfs_trace G5 0 7 2 sched_b 2) ! 1 = 1"
    using th [THEN conjunct2, THEN conjunct1, rule_format, OF n v1] unfolding Suc_1 .
  have "(1::nat) \<noteq> 2" by simp
  then have d: "set (curr_frontier (parallel_bfs_trace G5 0 7 2 sched_b 1)) \<inter>
       set (curr_frontier (parallel_bfs_trace G5 0 7 2 sched_b 2)) = {}"
    using th [THEN conjunct2, THEN conjunct2, THEN conjunct2, rule_format, of 1 2] by blast
  show ?thesis using wf_G5 st w e v1 v2 d by (intro conjI)
qed

section \<open>Runs in which the orchestrator never returns\<close>

text \<open>
  A deadlocked state is left by no step, so a run that reaches one never returns,
  whatever is scheduled afterwards.
\<close>

lemma not_enabled_step:
  "\<not> enabled st t \<Longrightarrow> thread_step indices arrange g search_value t st = st"
  by (cases t) simp_all

lemma deadlocked_step:
  assumes "deadlocked st"
  shows "thread_step indices arrange g search_value t st = st"
proof (cases "t \<in> set (threads st)")
  case True
  then have "\<not> enabled st t" using assms by (simp add: deadlocked_def list_all_iff)
  then show ?thesis by (rule not_enabled_step)
next
  case False
  have "\<not> enabled st t"
  proof (cases t)
    case Master
    then show ?thesis using False by (simp add: threads_def)
  next
    case (Worker i)
    then have "\<not> i < length (worker_pcs st)" using False by (auto simp: threads_def)
    then show ?thesis using Worker by (simp add: f_enabled_def)
  qed
  then show ?thesis by (rule not_enabled_step)
qed

lemma run_threads_returns:
  assumes "run_threads indices arrange g search_value schedule st = Some st'"
  shows "\<not> deadlocked st"
proof (rule run_threads.raw_induct
         [where P = "\<lambda>indices arrange g search_value schedule st y. \<not> deadlocked st", OF _ assms])
  fix f :: "(nat \<Rightarrow> nat \<Rightarrow> nat \<Rightarrow> nat list) \<Rightarrow> (nat \<Rightarrow> nat list \<Rightarrow> nat list) \<Rightarrow> Graph \<Rightarrow> int \<Rightarrow>
            thread list \<Rightarrow> system \<Rightarrow> system option"
    and idx ar gr sv sch s y
  assume IH: "\<And>idx ar gr sv sch s y. f idx ar gr sv sch s = Some y \<Longrightarrow> \<not> deadlocked s"
    and body: "(if master_pc s = M_return then Some s
                else case sch of
                       [] \<Rightarrow> f idx ar gr sv [] (thread_step idx ar gr sv (next_thread s) s)
                     | t # rest \<Rightarrow> f idx ar gr sv rest (thread_step idx ar gr sv t s)) = Some y"
  show "\<not> deadlocked s"
  proof
    assume d: "deadlocked s"
    then have m: "master_pc s \<noteq> M_return" by (simp add: deadlocked_def)
    have st: "thread_step idx ar gr sv t s = s" for t using d by (rule deadlocked_step)
    have "\<exists>sch'. f idx ar gr sv sch' s = Some y"
      using body m st by (cases sch) auto
    then show False using IH d by blast
  qed
qed

lemma deadlocked_run:
  "deadlocked st \<Longrightarrow> run_threads indices arrange g search_value schedule st = None"
  using
      run_threads_returns by (cases "run_threads indices arrange g search_value schedule st") blast+

lemma deadlocked_exec:
  "deadlocked st \<Longrightarrow> exec indices arrange g search_value schedule st = st"
  by (induction schedule) (simp_all add: exec_def deadlocked_step)

lemma exec_append:
  "exec indices arrange g search_value (p @ rest) st =
   exec indices arrange g search_value rest (exec indices arrange g search_value p st)"
  by (simp add: exec_def)

lemma f_step_master_pc: "master_pc (f_step indices g search_value t st) = master_pc st"
  by (simp add: f_step_def split: worker_pc.splits prod.splits option.splits)

lemma return_stays:
  "master_pc st = M_return \<Longrightarrow>
   master_pc (thread_step indices arrange g search_value t st) = M_return"
  by (cases t) (simp_all add: master_enabled_def f_step_master_pc)

lemma exec_return_stays:
  "master_pc st = M_return \<Longrightarrow> master_pc (exec indices arrange g search_value p st) = M_return"
proof (induction p arbitrary: st)
  case Nil
  then show ?case by (simp add: exec_def)
next
  case (Cons t p)
  have "master_pc (thread_step indices arrange g search_value t st) = M_return"
    using Cons.prems by (rule return_stays)
  then have "master_pc (exec indices arrange g search_value p
               (thread_step indices arrange g search_value t st)) = M_return"
    by (rule Cons.IH)
  then show ?case by (simp add: exec_def)
qed

lemma run_threads_prefix:
  "master_pc (exec indices arrange g search_value p st) \<noteq> M_return \<Longrightarrow>
   run_threads indices arrange g search_value (p @ rest) st =
   run_threads indices arrange g search_value rest (exec indices arrange g search_value p st)"
proof (induction p arbitrary: st)
  case Nil
  then show ?case by (simp add: exec_def)
next
  case (Cons t p)
  let ?st = "thread_step indices arrange g search_value t st"
  have e: "exec indices arrange g search_value (t # p) st
      = exec indices arrange g search_value p ?st"
    by (simp add: exec_def)
  have "master_pc st \<noteq> M_return"
    using Cons.prems exec_return_stays [of st indices arrange g search_value "t # p"] by blast
  then have "run_threads indices arrange g search_value ((t # p) @ rest) st =
             run_threads indices arrange g search_value (p @ rest) ?st"
    by (subst run_threads.simps) simp
  also have "\<dots> = run_threads indices arrange g search_value rest
                     (exec indices arrange g search_value p ?st)"
    using Cons.prems unfolding e by (rule Cons.IH)
  finally show ?case unfolding e .
qed

lemma blocked_run:
  assumes "deadlocked (exec indices arrange g search_value p st)"
  shows "run_threads indices arrange g search_value (p @ rest) st = None"
proof -
  have "master_pc (exec indices arrange g search_value p st) \<noteq> M_return"
    using assms by (simp add: deadlocked_def)
  then have "run_threads indices arrange g search_value (p @ rest) st =
            
                 run_threads indices arrange g search_value rest (exec indices arrange g search_value p st)"
    by (rule run_threads_prefix)
  also have "\<dots> = None" using assms by (rule deadlocked_run)
  finally show ?thesis .
qed

lemma blocked_exec:
  assumes "deadlocked (exec indices arrange g search_value p st)"
  shows "exec indices arrange g search_value (p @ rest) st
      = exec indices arrange g search_value p st"
  unfolding exec_append using assms by (rule deadlocked_exec)

lemma frontiers_deadlocked:
  "deadlocked st \<Longrightarrow>
   set (frontiers indices arrange g search_value rest st) = {curr_frontier (shared st)}"
  by (induction rest) (simp_all add: deadlocked_step)

lemma frontiers_append:
  "set (frontiers indices arrange g search_value (p @ rest) st) =
   set (frontiers indices arrange g search_value p st) \<union>
   set (frontiers indices arrange g search_value rest (exec indices arrange g search_value p st))"
proof (induction p arbitrary: st)
  case Nil
  then show ?case by (cases rest) (auto simp: exec_def)
next
  case (Cons t p)
  then show ?case by (simp add: exec_def)
qed

lemma frontiers_last:
  "curr_frontier (shared (exec indices arrange g search_value p st))
   \<in> set (frontiers indices arrange g search_value p st)"
  by (induction p arbitrary: st) (simp_all add: exec_def)

lemma blocked_frontiers:
  assumes "deadlocked (exec indices arrange g search_value p st)"
  shows "set (frontiers indices arrange g search_value (p @ rest) st) =
         set (frontiers indices arrange g search_value p st)"
  unfolding frontiers_append frontiers_deadlocked [OF assms]
  using frontiers_last [of indices arrange g search_value p st] by blast

lemma reach_5: "5 \<in> reachable G6 0"
proof -
  have "(0, 1) \<in> edges G6" "(1, 5) \<in> edges G6" by (simp_all add: edges_def G6_def)
  then have "(0, 5) \<in> (edges G6)\<^sup>*" by (meson r_into_rtrancl rtrancl_trans)
  then show ?thesis by (simp add: reachable_def)
qed

text \<open>
  Claim C3. The claim asks that the orchestrator's wait does not miss the workers'
  notification. In the code it can. A barrier for one worker, on the single-node graph:
  the orchestrator enters its first \<^verbatim>\<open>MasterWait\<close> and finds \<^verbatim>\<open>stop_master\<close> false (three
  steps); the worker does the work of round 0 and in \<^verbatim>\<open>WorkerWait\<close> sets \<^verbatim>\<open>stop_master\<close>,
  calls \<^verbatim>\<open>m_cond.notify_one()\<close> while nobody waits on \<^verbatim>\<open>m_cond\<close>, and blocks (thirteen
  steps); the orchestrator blocks on \<^verbatim>\<open>m_cond\<close>. Every step of this schedule can be
  taken. In the state it reaches, and in the state after any further schedule, the
  worker has completed round 0 and is blocked in \<^verbatim>\<open>WorkerWait\<close>, \<^verbatim>\<open>stop_master\<close> is set,
  the orchestrator is blocked inside \<^verbatim>\<open>MasterWait\<close>, and no thread can take a step.
\<close>

theorem MasterWait_misses_notification:
  fixes rest :: "thread list"
  defines "st \<equiv> exec by_chunks in_order G1 7 (wakeup_lost_G1 @ rest) (init_system G1 0 1)"
  shows "runnable by_chunks in_order G1 7 wakeup_lost_G1 (init_system G1 0 1)
       \<and> master_pc st = M_MasterWait MW_blocked
       \<and> worker_pcs st = [W_WorkerWait WW_blocked]
       \<and> map pending (workers (shared st)) = [[]]
       \<and> stop_master (barrier st)
       \<and> m_cond (barrier st) = [Master]
       \<and> deadlocked st"
proof -
  let ?s = "exec by_chunks in_order G1 7 wakeup_lost_G1 (init_system G1 0 1)"
  have d: "deadlocked ?s" by code_simp
  have st: "st = ?s" unfolding st_def using d by (rule blocked_exec)
  have r: "runnable by_chunks in_order G1 7 wakeup_lost_G1 (init_system G1 0 1)" by code_simp
  have 1: "master_pc ?s = M_MasterWait MW_blocked" by code_simp
  have 2: "worker_pcs ?s = [W_WorkerWait WW_blocked]" by code_simp
  have 3: "map pending (workers (shared ?s)) = [[]]" by code_simp
  have 4: "stop_master (barrier ?s)" by code_simp
  have 5: "m_cond (barrier ?s) = [Master]" by code_simp
  show ?thesis unfolding st using r 1 2 3 4 5 d by (intro conjI)
qed

theorem MasterWait_misses_notification_witness:
  "runnable by_chunks in_order G1 7 wakeup_lost_G1 (init_system G1 0 1)
   \<and> deadlocked (exec by_chunks in_order G1 7
        (wakeup_lost_G1 @ [Master, Worker 0, Master, Worker 0]) (init_system G1 0 1))
   \<and> stop_master (barrier (exec by_chunks in_order G1 7
        (wakeup_lost_G1 @ [Master, Worker 0, Master, Worker 0]) (init_system G1 0 1)))
   \<and> master_pc (exec by_chunks in_order G1 7
        (wakeup_lost_G1 @ [Master, Worker 0, Master, Worker 0]) (init_system G1 0 1))
       = M_MasterWait MW_blocked
   \<and> runnable by_chunks in_order G1 7 workers_first_G1 (init_system G1 0 1)
   \<and> master_pc (exec by_chunks in_order G1 7 workers_first_G1 (init_system G1 0 1)) = M_merge"
proof -
  note th = MasterWait_misses_notification [of "[Master, Worker 0, Master, Worker 0]"]
  have a: "runnable by_chunks in_order G1 7 workers_first_G1 (init_system G1 0 1)" by code_simp
  have b: "master_pc (exec by_chunks in_order G1 7 workers_first_G1
      (init_system G1 0 1)) = M_merge"
    by code_simp
  show ?thesis
    using th [THEN conjunct1]
      th [THEN conjunct2, THEN conjunct2, THEN conjunct2, THEN conjunct2, THEN conjunct2,
          THEN conjunct2]
      th [THEN conjunct2, THEN conjunct2, THEN conjunct2, THEN conjunct2, THEN conjunct1]
      th [THEN conjunct2, THEN conjunct1] a b
    by (intro conjI)
qed

text \<open>
  Claim C1. The claim: \<open>parallel_bfs\<close> returns the count of \<open>sequential_bfs\<close>. On the
  graph \<open>G5\<close> with two workers \<open>sequential_bfs\<close> returns 5, and \<open>parallel_bfs\<close> has a
  run that never returns: the orchestrator tests \<^verbatim>\<open>stop_master\<close> in its first
  \<^verbatim>\<open>MasterWait\<close>, the two workers complete round 0 and the second one sets the flag and
  notifies, the orchestrator blocks. Every step of this schedule can be taken, and
  nothing that is scheduled after it makes the call return.
\<close>

theorem parallel_bfs_never_returns:
  "runnable by_chunks in_order G5 7 wakeup_lost_G5 (init_system G5 0 2)
   \<and> parallel_bfs G5 0 7 2 (wakeup_lost_G5 @ rest) = None
   \<and> sequential_bfs G5 0 7 = Some (Inr 5)"
proof -
  have d: "deadlocked (exec by_chunks in_order G5 7 wakeup_lost_G5 (init_system G5 0 2))"
      by code_simp
  have r: "runnable by_chunks in_order G5 7 wakeup_lost_G5 (init_system G5 0 2)" by code_simp
  have "run_threads by_chunks in_order G5 7 (wakeup_lost_G5 @ rest) (init_system G5 0 2) = None"
    using d by (rule blocked_run)
  then have p: "parallel_bfs G5 0 7 2 (wakeup_lost_G5 @ rest) = None"
    by (simp add: parallel_bfs_def level_sync_bfs_def level_sync_run_def G5_def)
  have s: "sequential_bfs G5 0 7 = Some (Inr 5)" by code_simp
  show ?thesis using r p s by (intro conjI)
qed

theorem parallel_bfs_never_returns_witness:
  "runnable by_chunks in_order G5 7 wakeup_lost_G5 (init_system G5 0 2)
   \<and> parallel_bfs G5 0 7 2 (wakeup_lost_G5 @ [Worker 1, Master, Worker 0, Master]) = None
   \<and> sequential_bfs G5 0 7 = Some (Inr 5)
   \<and> parallel_bfs G5 0 7 2 [] = Some (Inr 5)
   \<and> parallel_bfs G5 0 7 1 [] = Some (Inr 5)"
proof -
  note th = parallel_bfs_never_returns [of "[Worker 1, Master, Worker 0, Master]"]
  have a: "parallel_bfs G5 0 7 2 [] = Some (Inr 5)" by code_simp
  have b: "parallel_bfs G5 0 7 1 [] = Some (Inr 5)" by code_simp
  show ?thesis
    using th [THEN conjunct1] th [THEN conjunct2, THEN conjunct1]
      th [THEN conjunct2, THEN conjunct2] a b
    by (intro conjI)
qed

text \<open>
  Claim C4. The claim: the orchestrator loop terminates after at most \<open>n\<close> rounds. On
  \<open>G5\<close> with one worker there is a run whose first round completes and whose second
  iteration never ends: the orchestrator merges round 0, starts the worker, tests
  \<^verbatim>\<open>stop_master\<close> in \<^verbatim>\<open>MasterWait\<close>, the worker completes round 1, sets the flag and
  notifies, the orchestrator blocks. One merge has been done, the frontier is not empty,
  and the call never returns.
\<close>

theorem orchestrator_loop_never_ends:
  fixes rest :: "thread list"
  defines "st \<equiv> exec by_chunks in_order G5 7 (wakeup_lost_round_1_G5 @ rest) (init_system G5 0 1)"
  shows "runnable by_chunks in_order G5 7 wakeup_lost_round_1_G5 (init_system G5 0 1)
       \<and> parallel_bfs G5 0 7 1 (wakeup_lost_round_1_G5 @ rest) = None
       \<and> rounds (shared st) = 1
       \<and> curr_frontier (shared st) = [1, 2]
       \<and> master_pc st = M_MasterWait MW_blocked"
proof -
  let ?s = "exec by_chunks in_order G5 7 wakeup_lost_round_1_G5 (init_system G5 0 1)"
  have d: "deadlocked ?s" by code_simp
  have st: "st = ?s" unfolding st_def using d by (rule blocked_exec)
  have r: "runnable by_chunks in_order G5 7 wakeup_lost_round_1_G5 (init_system G5 0 1)"
      by code_simp
  have "run_threads by_chunks in_order G5 7 (wakeup_lost_round_1_G5 @ rest)
      (init_system G5 0 1) = None"
    using d by (rule blocked_run)
  then have p: "parallel_bfs G5 0 7 1 (wakeup_lost_round_1_G5 @ rest) = None"
    by (simp add: parallel_bfs_def level_sync_bfs_def level_sync_run_def G5_def)
  have 1: "rounds (shared ?s) = 1" by code_simp
  have 2: "curr_frontier (shared ?s) = [1, 2]" by code_simp
  have 3: "master_pc ?s = M_MasterWait MW_blocked" by code_simp
  show ?thesis unfolding st using r p 1 2 3 by (intro conjI)
qed

theorem orchestrator_loop_never_ends_witness:
  "runnable by_chunks in_order G5 7 wakeup_lost_round_1_G5 (init_system G5 0 1)
   \<and> parallel_bfs G5 0 7 1 (wakeup_lost_round_1_G5 @ replicate 9 Master) = None
   \<and> rounds (shared (exec by_chunks in_order G5 7
        (wakeup_lost_round_1_G5 @ replicate 9 Master) (init_system G5 0 1))) = 1
   \<and> n_nodes G5 = 5"
proof -
  note th = orchestrator_loop_never_ends [of "replicate 9 Master"]
  have n: "n_nodes G5 = 5" by (simp add: G5_def)
  show ?thesis
    using th [THEN conjunct1] th [THEN conjunct2, THEN conjunct1]
      th [THEN conjunct2, THEN conjunct2, THEN conjunct1] n
    by (intro conjI)
qed

text \<open>
  Claim C6. The claim: every reachable node is in the frontier of exactly one round of a
  run. On \<open>G6\<close> with two workers node 5 is reachable from node 0, and there is a run in
  which it is in no frontier: the wake-up of round 1 is lost, the orchestrator never
  merges the buffers of round 1, which hold node 5, and the frontier is \<open>[0]\<close>, then
  \<open>[1, 2, 3, 4]\<close>, and nothing else ever after. No worker examines node 5.
\<close>

theorem reachable_node_in_no_frontier:
  fixes rest :: "thread list"
  defines "st \<equiv> exec by_chunks in_order G6 7 (wakeup_lost_round_1_G6 @ rest) (init_system G6 0 2)"
  shows "5 \<in> reachable G6 0
       \<and> runnable by_chunks in_order G6 7 wakeup_lost_round_1_G6 (init_system G6 0 2)
       \<and> parallel_bfs G6 0 7 2 (wakeup_lost_round_1_G6 @ rest) = None
       \<and> set (frontiers by_chunks in_order G6 7 (wakeup_lost_round_1_G6 @ rest) (init_system G6 0 2))
           = {[0], [1, 2, 3, 4]}
       \<and> map partial_new_frontier (workers (shared st)) = [[], [5]]
       \<and> 5 \<notin> set (all_examined (shared st))"
proof -
  let ?s = "exec by_chunks in_order G6 7 wakeup_lost_round_1_G6 (init_system G6 0 2)"
  have d: "deadlocked ?s" by code_simp
  have st: "st = ?s" unfolding st_def using d by (rule blocked_exec)
  have r: "runnable by_chunks in_order G6 7 wakeup_lost_round_1_G6 (init_system G6 0 2)"
      by code_simp
  have "run_threads by_chunks in_order G6 7 (wakeup_lost_round_1_G6 @ rest)
      (init_system G6 0 2) = None"
    using d by (rule blocked_run)
  then have p: "parallel_bfs G6 0 7 2 (wakeup_lost_round_1_G6 @ rest) = None"
    by (simp add: parallel_bfs_def level_sync_bfs_def level_sync_run_def G6_def)
  have "remdups (frontiers by_chunks in_order G6 7 wakeup_lost_round_1_G6 (init_system G6 0 2))
        = [[0], [1, 2, 3, 4]]" by code_simp
  then have "set (remdups (frontiers by_chunks in_order G6 7 wakeup_lost_round_1_G6
      (init_system G6 0 2)))
        = set [[0], [1, 2, 3, 4]]" by (rule arg_cong)
  then have "set (frontiers by_chunks in_order G6 7 wakeup_lost_round_1_G6 (init_system G6 0 2))
        = {[0], [1, 2, 3, 4]}" by simp
  then have f: "set (frontiers by_chunks in_order G6 7 (wakeup_lost_round_1_G6 @ rest)
      (init_system G6 0 2))
           = {[0], [1, 2, 3, 4]}"
    unfolding blocked_frontiers [OF d] .
  have 1: "map partial_new_frontier (workers (shared ?s)) = [[], [5]]" by code_simp
  have "all_examined (shared ?s) = [0, 1, 2, 3, 4]" by code_simp
  then have 2: "5 \<notin> set (all_examined (shared ?s))" by simp
  show ?thesis unfolding st using reach_5 r p f 1 2 by (intro conjI)
qed

theorem reachable_node_in_no_frontier_witness:
  "5 \<in> reachable G6 0
   \<and> parallel_bfs G6 0 7 2 (wakeup_lost_round_1_G6 @ [Worker 0, Worker 1, Master]) = None
   \<and> set (frontiers by_chunks in_order G6 7
        (wakeup_lost_round_1_G6 @ [Worker 0, Worker 1, Master]) (init_system G6 0 2))
       = {[0], [1, 2, 3, 4]}
   \<and> 5 \<notin> set (all_examined (shared (exec by_chunks in_order G6 7
        (wakeup_lost_round_1_G6 @ [Worker 0, Worker 1, Master]) (init_system G6 0 2))))
   \<and> parallel_bfs G6 0 7 2 [] = Some (Inr 4)"
proof -
  note th = reachable_node_in_no_frontier [of "[Worker 0, Worker 1, Master]"]
  have a: "parallel_bfs G6 0 7 2 [] = Some (Inr 4)" by code_simp
  show ?thesis
    using th [THEN conjunct1] th [THEN conjunct2, THEN conjunct2, THEN conjunct1]
      th [THEN conjunct2, THEN conjunct2, THEN conjunct2, THEN conjunct1]
      th [THEN conjunct2, THEN conjunct2, THEN conjunct2, THEN conjunct2, THEN conjunct2] a
    by (intro conjI)
qed

text \<open>
  Claim C7. The claim: \<open>parallel_bfs\<close> and the static variant return the same count. The
  static variant waits for its workers with the same \<^verbatim>\<open>MasterWait\<close>: on \<open>G5\<close> with two
  workers, whatever the order in which it iterates its hash set, it has a run that never
  returns, where a run of \<open>parallel_bfs\<close> returns 5.
\<close>

theorem static_variant_never_returns:
  "runnable static_indices iteration_order G5 7 wakeup_lost_G5 (init_system G5 0 2)
   \<and> parallel_bfs_static iteration_order G5 0 7 2 (wakeup_lost_G5 @ rest) = None
   \<and> parallel_bfs G5 0 7 2 [] = Some (Inr 5)"
proof -
  have d: "deadlocked (exec static_indices iteration_order G5 7 wakeup_lost_G5
             (init_system G5 0 2))" by code_simp
  have r: "runnable static_indices iteration_order G5 7 wakeup_lost_G5 (init_system G5 0 2)"
    by code_simp
  have "run_threads static_indices iteration_order G5 7 (wakeup_lost_G5 @ rest)
          (init_system G5 0 2) = None"
    using d by (rule blocked_run)
  then have p: "parallel_bfs_static iteration_order G5 0 7 2 (wakeup_lost_G5 @ rest) = None"
    by (simp add: parallel_bfs_static_def level_sync_bfs_def level_sync_run_def G5_def)
  have c: "parallel_bfs G5 0 7 2 [] = Some (Inr 5)" by code_simp
  show ?thesis using r p c by (intro conjI)
qed

theorem static_variant_never_returns_witness:
  "runnable static_indices zigzag G5 7 wakeup_lost_G5 (init_system G5 0 2)
   \<and> parallel_bfs_static zigzag G5 0 7 2 (wakeup_lost_G5 @ [Master, Worker 1]) = None
   \<and> parallel_bfs G5 0 7 2 [] = Some (Inr 5)
   \<and> parallel_bfs_static zigzag G5 0 7 2 [] = Some (Inr 5)"
proof -
  note th = static_variant_never_returns [of zigzag "[Master, Worker 1]"]
  have a: "parallel_bfs_static zigzag G5 0 7 2 [] = Some (Inr 5)" by code_simp
  show ?thesis
    using th [THEN conjunct1] th [THEN conjunct2, THEN conjunct1]
      th [THEN conjunct2, THEN conjunct2] a
    by (intro conjI)
qed

text \<open>
  Claim C8. The claim: on a single-node graph whose node has the search value
  \<open>parallel_bfs\<close> returns 1 for every number of workers, after one round. With two
  workers there is a run in which worker 0 examines the start node in round 0 and counts
  it, the wake-up of round 0 is lost, and the call never returns: no round completes and
  the count stays in the worker's counter.
\<close>

theorem single_node_run_never_returns:
  fixes rest :: "thread list"
  defines "st \<equiv> exec by_chunks in_order G1 7 (wakeup_lost_G1_2 @ rest) (init_system G1 0 2)"
  shows "runnable by_chunks in_order G1 7 wakeup_lost_G1_2 (init_system G1 0 2)
       \<and> parallel_bfs G1 0 7 2 (wakeup_lost_G1_2 @ rest) = None
       \<and> map examined (workers (shared st)) = [[0], []]
       \<and> map partial_occurrences (workers (shared st)) = [1, 0]
       \<and> rounds (shared st) = 0"
proof -
  let ?s = "exec by_chunks in_order G1 7 wakeup_lost_G1_2 (init_system G1 0 2)"
  have d: "deadlocked ?s" by code_simp
  have st: "st = ?s" unfolding st_def using d by (rule blocked_exec)
  have r: "runnable by_chunks in_order G1 7 wakeup_lost_G1_2 (init_system G1 0 2)" by code_simp
  have "run_threads by_chunks in_order G1 7 (wakeup_lost_G1_2 @ rest) (init_system G1 0 2) = None"
    using d by (rule blocked_run)
  then have p: "parallel_bfs G1 0 7 2 (wakeup_lost_G1_2 @ rest) = None"
    by (simp add: parallel_bfs_def level_sync_bfs_def level_sync_run_def G1_def)
  have 1: "map examined (workers (shared ?s)) = [[0], []]" by code_simp
  have 2: "map partial_occurrences (workers (shared ?s)) = [1, 0]" by code_simp
  have 3: "rounds (shared ?s) = 0" by code_simp
  show ?thesis unfolding st using r p 1 2 3 by (intro conjI)
qed

theorem single_node_run_never_returns_witness:
  "runnable by_chunks in_order G1 7 wakeup_lost_G1_2 (init_system G1 0 2)
   \<and> parallel_bfs G1 0 7 2 (wakeup_lost_G1_2 @ [Master, Master]) = None
   \<and> rounds (shared (exec by_chunks in_order G1 7 (wakeup_lost_G1_2 @ [Master, Master])
        (init_system G1 0 2))) = 0
   \<and> parallel_bfs G1 0 7 2 [] = Some (Inr 1)"
proof -
  note th = single_node_run_never_returns [of "[Master, Master]"]
  have a: "parallel_bfs G1 0 7 2 [] = Some (Inr 1)" by code_simp
  show ?thesis
    using th [THEN conjunct1] th [THEN conjunct2, THEN conjunct1]
      th [THEN conjunct2, THEN conjunct2, THEN conjunct2, THEN conjunct2] a
    by (intro conjI)
qed

end
